theory Spec2Isabelle
  imports Main
begin

section \<open>JavaScript \<open>Map\<close> objects as insertion-ordered association lists\<close>

text \<open>
  A JavaScript \<open>Map\<close> iterates in insertion order; \<open>set\<close> on a key that is present
  overwrites the value and keeps the position, \<open>set\<close> on a new key appends,
  \<open>delete\<close> removes the entry, \<open>get\<close> returns \<open>undefined\<close> (here \<open>None\<close>) for a
  missing key.
\<close>

fun Map_set :: "'k \<Rightarrow> 'v \<Rightarrow> ('k \<times> 'v) list \<Rightarrow> ('k \<times> 'v) list" where
  "Map_set k v [] = [(k, v)]"
| "Map_set k v ((k', v') # xs) =
     (if k' = k then (k, v) # xs else (k', v') # Map_set k v xs)"

definition Map_get :: "'k \<Rightarrow> ('k \<times> 'v) list \<Rightarrow> 'v option" where
  "Map_get k xs = map_of xs k"

definition Map_has :: "'k \<Rightarrow> ('k \<times> 'v) list \<Rightarrow> bool" where
  "Map_has k xs = (map_of xs k \<noteq> None)"

definition Map_delete :: "'k \<Rightarrow> ('k \<times> 'v) list \<Rightarrow> ('k \<times> 'v) list" where
  "Map_delete k xs = filter (\<lambda>e. fst e \<noteq> k) xs"

section \<open>sync-core: \<open>SyncRoom\<close>\<close>

type_synonym session_id = string

text \<open>A \<open>SyncSocket\<close> object is known by its identity; what it does lives in the world
  part of the state below.\<close>
type_synonym socket_ref = nat

text \<open>Address of a \<open>Map<string, Presence>\<close> object on the heap.\<close>
type_synonym addr = nat

datatype error =
  TransportError socket_ref  \<comment> \<open>\<open>socket.send\<close> threw\<close>
| StringifyError             \<comment> \<open>\<open>JSON.stringify\<close> threw\<close>

text \<open>
  \<open>RoomHooks\<close>: every hook is optional. A hook is consumer code; it is modelled as an
  observer whose calls are recorded, except \<open>onMessage\<close>, whose return value
  (\<open>string | void\<close>) the room uses.
\<close>
record RoomHooks =
  onJoin :: bool
  onLeave :: bool
  onMessage :: "(session_id \<Rightarrow> string \<Rightarrow> string option) option"
  onBroadcast :: bool
  onPresenceUpdate :: bool

datatype 'p hook_call =
  JoinCall session_id
| LeaveCall session_id
| MessageCall session_id string
| BroadcastCall session_id session_id string
| PresenceUpdateCall session_id 'p

text \<open>
  The state: the fields of the \<open>SyncRoom\<close> object (\<open>id\<close>, \<open>sockets\<close>, \<open>hooks\<close>,
  \<open>presence\<close>), the heap of presence maps, and the world outside the room: which sockets
  throw on \<open>send\<close>, what has been sent, which handlers the room registered on which
  socket, and the hook calls made.
\<close>
record 'p SyncRoom =
  id_room :: string
  sockets :: "(session_id \<times> socket_ref) list"
  hooks :: "RoomHooks option"
  presence :: addr
  maps :: "addr \<Rightarrow> (session_id \<times> 'p) list"
  next_addr :: addr
  send_throws :: "socket_ref \<Rightarrow> bool"
  outbox :: "(session_id \<times> socket_ref \<times> string) list"
  message_handlers :: "(socket_ref \<times> session_id) list"
  close_handlers :: "(socket_ref \<times> session_id) list"
  hook_calls :: "'p hook_call list"

text \<open>An operation ends normally (\<open>None\<close>) or by an exception (\<open>Some e\<close>); either way
  the effects made so far stay.\<close>
type_synonym 'p outcome = "error option \<times> 'p SyncRoom"

text \<open>\<open>new SyncRoom(config)\<close>: two empty maps, the presence map freshly allocated.\<close>
definition new_SyncRoom :: "string \<Rightarrow> RoomHooks option \<Rightarrow> (socket_ref \<Rightarrow> bool) \<Rightarrow> 'p SyncRoom" where
  "new_SyncRoom rid hs throws =
     \<lparr> id_room = rid, sockets = [], hooks = hs, presence = 0,
       maps = (\<lambda>_. []), next_addr = 1, send_throws = throws, outbox = [],
       message_handlers = [], close_handlers = [], hook_calls = [] \<rparr>"

text \<open>\<open>this.hooks?.h?.(...)\<close>: the call is made when the hooks object and the hook exist.\<close>
definition call_hook :: "(RoomHooks \<Rightarrow> bool) \<Rightarrow> 'p hook_call \<Rightarrow> 'p SyncRoom \<Rightarrow> 'p SyncRoom" where
  "call_hook h c st =
     (case hooks st of
        None \<Rightarrow> st
      | Some hs \<Rightarrow> if h hs then st\<lparr>hook_calls := hook_calls st @ [c]\<rparr> else st)"

text \<open>\<open>connect\<close> has no \<open>throw\<close> and no check of \<open>sessionId\<close>: it stores the socket,
  calls \<open>onJoin\<close> and registers the two handlers on the socket.\<close>
definition connect :: "session_id \<Rightarrow> socket_ref \<Rightarrow> 'p SyncRoom \<Rightarrow> 'p outcome" where
  "connect sessionId socket st =
     (let st1 = st\<lparr>sockets := Map_set sessionId socket (sockets st)\<rparr>;
          st2 = call_hook onJoin (JoinCall sessionId) st1;
          st3 = st2\<lparr>message_handlers := message_handlers st2 @ [(socket, sessionId)]\<rparr>;
          st4 = st3\<lparr>close_handlers := close_handlers st3 @ [(socket, sessionId)]\<rparr>
      in (None, st4))"

text \<open>\<open>socket.send(message)\<close>, called for the registry entry \<open>sessionId\<close>.\<close>
definition send :: "session_id \<Rightarrow> socket_ref \<Rightarrow> string \<Rightarrow> 'p SyncRoom \<Rightarrow> 'p outcome" where
  "send sessionId socket message st =
     (if send_throws st socket then (Some (TransportError socket), st)
      else (None, st\<lparr>outbox := outbox st @ [(sessionId, socket, message)]\<rparr>))"

text \<open>The \<open>for\<close> loop of \<open>broadcast\<close> over \<open>this.sockets.entries()\<close>.\<close>
fun broadcast_loop ::
  "session_id \<Rightarrow> string \<Rightarrow> (session_id \<times> socket_ref) list \<Rightarrow> 'p SyncRoom \<Rightarrow> 'p outcome" where
  "broadcast_loop fromSessionId message [] st = (None, st)"
| "broadcast_loop fromSessionId message ((sessionId, socket) # rest) st =
     (if sessionId \<noteq> fromSessionId then
        (case send sessionId socket message
                (call_hook onBroadcast (BroadcastCall fromSessionId sessionId message) st) of
           (Some e, st') \<Rightarrow> (Some e, st')
         | (None, st') \<Rightarrow> broadcast_loop fromSessionId message rest st')
      else broadcast_loop fromSessionId message rest st)"

definition broadcast :: "session_id \<Rightarrow> string \<Rightarrow> 'p SyncRoom \<Rightarrow> 'p outcome" where
  "broadcast fromSessionId message st = broadcast_loop fromSessionId message (sockets st) st"

text \<open>\<open>JSON.stringify({type: "presence", sessionId, data})\<close> is a parameter
  \<open>stringify\<close>; \<open>None\<close> is the \<open>TypeError\<close> it throws on a value it cannot serialise.\<close>
definition updatePresence ::
  "(session_id \<Rightarrow> 'p \<Rightarrow> string option) \<Rightarrow> session_id \<Rightarrow> 'p \<Rightarrow> 'p SyncRoom \<Rightarrow> 'p outcome" where
  "updatePresence stringify sessionId data st =
     (let st1 = st\<lparr>maps := (maps st)(presence st := Map_set sessionId data (maps st (presence st)))\<rparr>;
          st2 = call_hook onPresenceUpdate (PresenceUpdateCall sessionId data) st1
      in case stringify sessionId data of
           None \<Rightarrow> (Some StringifyError, st2)
         | Some message \<Rightarrow> broadcast sessionId message st2)"

definition getPresence :: "session_id \<Rightarrow> 'p SyncRoom \<Rightarrow> 'p option" where
  "getPresence sessionId st = Map_get sessionId (maps st (presence st))"

text \<open>\<open>new Map(this.presence)\<close>: a new map object holding the entries of the room's
  presence map; the caller gets its address.\<close>
definition getAllPresence :: "'p SyncRoom \<Rightarrow> addr \<times> 'p SyncRoom" where
  "getAllPresence st =
     (next_addr st,
      st\<lparr>maps := (maps st)(next_addr st := maps st (presence st)),
         next_addr := Suc (next_addr st)\<rparr>)"

text \<open>The handler \<open>connect\<close> registers with \<open>socket.onMessage\<close>, for one inbound message.\<close>
definition message_handler :: "session_id \<Rightarrow> string \<Rightarrow> 'p SyncRoom \<Rightarrow> 'p outcome" where
  "message_handler sessionId msg st =
     (let maybeTransformed =
            (case hooks st of
               None \<Rightarrow> msg
             | Some hs \<Rightarrow>
                 (case onMessage hs of
                    None \<Rightarrow> msg
                  | Some f \<Rightarrow> (case f sessionId msg of None \<Rightarrow> msg | Some m \<Rightarrow> m)));
          st1 = (case hooks st of
                   None \<Rightarrow> st
                 | Some hs \<Rightarrow>
                     (case onMessage hs of
                        None \<Rightarrow> st
                      | Some f \<Rightarrow> st\<lparr>hook_calls := hook_calls st @ [MessageCall sessionId msg]\<rparr>))
      in broadcast sessionId maybeTransformed st1)"

text \<open>The handler \<open>connect\<close> registers with \<open>socket.onClose\<close>: the detach bookkeeping.\<close>
definition close_handler :: "session_id \<Rightarrow> 'p SyncRoom \<Rightarrow> 'p SyncRoom" where
  "close_handler sessionId st =
     (let st1 = st\<lparr>sockets := Map_delete sessionId (sockets st)\<rparr>;
          st2 = st1\<lparr>maps := (maps st1)(presence st1 := Map_delete sessionId (maps st1 (presence st1)))\<rparr>
      in call_hook onLeave (LeaveCall sessionId) st2)"

text \<open>What a holder of a map's address can do to it: the mutating methods of \<open>Map\<close>.\<close>
datatype 'p map_op = SetOp session_id 'p | DeleteOp session_id | ClearOp

fun apply_map_op :: "addr \<Rightarrow> 'p map_op \<Rightarrow> 'p SyncRoom \<Rightarrow> 'p SyncRoom" where
  "apply_map_op a (SetOp k v) st = st\<lparr>maps := (maps st)(a := Map_set k v (maps st a))\<rparr>"
| "apply_map_op a (DeleteOp k) st = st\<lparr>maps := (maps st)(a := Map_delete k (maps st a))\<rparr>"
| "apply_map_op a ClearOp st = st\<lparr>maps := (maps st)(a := [])\<rparr>"

fun apply_map_ops :: "addr \<Rightarrow> 'p map_op list \<Rightarrow> 'p SyncRoom \<Rightarrow> 'p SyncRoom" where
  "apply_map_ops a [] st = st"
| "apply_map_ops a (op # ops) st = apply_map_ops a ops (apply_map_op a op st)"

text \<open>The registry entries a broadcast from \<open>fromSessionId\<close> sends to, in iteration order.\<close>
definition destinations ::
  "session_id \<Rightarrow> (session_id \<times> socket_ref) list \<Rightarrow> (session_id \<times> socket_ref) list" where
  "destinations fromSessionId xs = filter (\<lambda>e. fst e \<noteq> fromSessionId) xs"

text \<open>The \<open>send\<close> calls made between two states: \<open>outbox\<close> only grows at its end.\<close>
definition delivered :: "'p SyncRoom \<Rightarrow> 'p SyncRoom \<Rightarrow> (session_id \<times> socket_ref \<times> string) list" where
  "delivered st st' = drop (length (outbox st)) (outbox st')"

text \<open>What every room built by \<open>new_SyncRoom\<close> and the operations satisfies: the presence
  map is allocated and the keys of the socket registry are distinct.\<close>
definition room_ok :: "'p SyncRoom \<Rightarrow> bool" where
  "room_ok st = (presence st < next_addr st \<and> distinct (map fst (sockets st)))"

subsection \<open>Example rooms\<close>

text \<open>Three sessions attached in the order A, B, C; the socket of B throws on \<open>send\<close>.\<close>
definition alice_bob_carol :: "nat SyncRoom" where
  "alice_bob_carol =
     (new_SyncRoom ''r'' None (\<lambda>k. k = 2))\<lparr>sockets := [(''A'', 1), (''B'', 2), (''C'', 3)]\<rparr>"

text \<open>The same room with three working sockets.\<close>
definition alice_bob_carol_ok :: "nat SyncRoom" where
  "alice_bob_carol_ok = alice_bob_carol\<lparr>send_throws := (\<lambda>_. False)\<rparr>"

text \<open>A new room to which session \<open>x\<close> has connected with socket 1.\<close>
definition x_connected :: "nat SyncRoom" where
  "x_connected = snd (connect ''x'' 1 (new_SyncRoom ''r'' None (\<lambda>_. False)))"

text \<open>A new room, nobody attached, in which session \<open>s1\<close> has set its presence to 12.\<close>
definition s1_present :: "nat SyncRoom" where
  "s1_present =
     snd (updatePresence (\<lambda>_ _. Some ''m'') ''s1'' 12 (new_SyncRoom ''r'' None (\<lambda>_. False)))"

section \<open>sync-whiteboard: the room registry and the persistence loop (\<open>rooms.ts\<close>)\<close>

text \<open>A document snapshot is opaque to the registry: here the list of its records.\<close>
type_synonym snapshot = "string list"

text \<open>Identity of a \<open>RoomState\<close> object and of the \<open>TLSocketRoom\<close> it owns (the two are
  created together, one for one).\<close>
type_synonym ref = nat

text \<open>Who called \<open>getOrCreateRoom\<close>.\<close>
type_synonym caller = nat

text \<open>What \<open>JSON.parse\<close> returns: a value that is a document snapshot, or some other
  JSON value (\<open>{}\<close>, a number, ...), which the engine's constructor rejects.\<close>
datatype json_value = Snapshot snapshot | NoSnapshot

text \<open>What a file of the storage directory holds: JSON text, or text that \<open>JSON.parse\<close>
  rejects.\<close>
datatype file_content = Json json_value | Garbage

datatype server_error =
  EIO               \<comment> \<open>\<open>readFile\<close> rejected with a code other than \<open>ENOENT\<close>\<close>
| SyntaxError       \<comment> \<open>\<open>JSON.parse\<close> threw\<close>
| ConstructorError  \<comment> \<open>\<open>new TLSocketRoom\<close> threw on the initial snapshot\<close>
| TypeError         \<comment> \<open>\<open>rooms.get(roomId)!.room\<close> on \<open>undefined\<close>\<close>

subsection \<open>The path of a room's file\<close>

definition STORAGE_DIR :: string where
  "STORAGE_DIR = ''./room-data''"

text \<open>The segments of a path, cut at every \<open>/\<close>.\<close>
fun split_path :: "string \<Rightarrow> string list" where
  "split_path [] = [[]]"
| "split_path (c # cs) =
     (if c = CHR ''/'' then [] # split_path cs
      else (case split_path cs of
              [] \<Rightarrow> [[c]]
            | seg # segs \<Rightarrow> (c # seg) # segs))"

text \<open>Normalisation of the segments of a relative path, as \<open>path.normalize\<close> does it:
  empty segments and \<open>.\<close> are dropped, \<open>..\<close> removes the segment before it, or stays
  when there is none to remove. \<open>acc\<close> holds the segments kept so far, last one first.\<close>
fun normalize_segments :: "string list \<Rightarrow> string list \<Rightarrow> string list" where
  "normalize_segments acc [] = rev acc"
| "normalize_segments acc (seg # segs) =
     (if seg = [] \<or> seg = ''.'' then normalize_segments acc segs
      else if seg = ''..'' then
        (case acc of
           [] \<Rightarrow> normalize_segments [seg] segs
         | prev # rest \<Rightarrow>
             if prev = ''..'' then normalize_segments (seg # acc) segs
             else normalize_segments rest segs)
      else normalize_segments (seg # acc) segs)"

fun join_segments :: "string list \<Rightarrow> string" where
  "join_segments [] = ''.''"
| "join_segments [seg] = seg"
| "join_segments (seg # segs) = seg @ ''/'' @ join_segments segs"

text \<open>\<open>path.join(a, b)\<close> of POSIX, for the arguments it gets here: \<open>a\<close> relative and
  not empty, \<open>b\<close> not empty and not ending in \<open>/\<close>.\<close>
definition join :: "string \<Rightarrow> string \<Rightarrow> string" where
  "join a b = join_segments (normalize_segments [] (split_path (a @ ''/'' @ b)))"

text \<open>\<open>join(STORAGE_DIR, `${roomId}.json`)\<close>, the file both \<open>readSnapshotIfExists\<close> and
  \<open>saveSnapshot\<close> use for \<open>roomId\<close>. Room ids that differ can name the same file.\<close>
definition storage_path :: "string \<Rightarrow> string" where
  "storage_path roomId = join STORAGE_DIR (roomId @ ''.json'')"

subsection \<open>The state of the module\<close>

text \<open>
  The document engine \<open>TLSocketRoom\<close> comes from a library. The registry uses four
  things of it: the constructor, which starts from \<open>initialSnapshot\<close> or from an empty
  document and throws when \<open>initialSnapshot\<close> is no snapshot; \<open>getCurrentSnapshot()\<close>,
  which returns the document; \<open>close()\<close>; and \<open>isClosed()\<close>. The engine calls back
  \<open>onDataChange\<close> and \<open>onSessionRemoved\<close>.
\<close>
record TLSocketRoom =
  closed :: bool
  doc :: snapshot

record RoomState =
  room :: TLSocketRoom
  id_state :: string
  needsPersist :: bool

text \<open>What the module does to the outside, in order.\<close>
datatype action =
  Constructed ref string "json_value option"  \<comment> \<open>\<open>new TLSocketRoom({initialSnapshot, ...})\<close>\<close>
| WriteStarted string snapshot              \<comment> \<open>\<open>writeFile\<close> called for the room's file\<close>
| WriteSucceeded string
| WriteFailed string                        \<comment> \<open>the \<open>catch\<close> of \<open>saveSnapshot\<close>: logged\<close>
| EngineClosed ref                          \<comment> \<open>\<open>room.close()\<close>\<close>

text \<open>
  The module state. \<open>rooms\<close> is the \<open>Map<string, RoomState>\<close>, holding references into
  \<open>objects\<close>; \<open>disk\<close> maps the path of a file to what the file holds. The variable \<open>mutex\<close> is a promise chain: \<open>mutex_queue\<close> holds the tasks
  appended by \<open>mutex.then(...)\<close> that have not started, in call order, and
  \<open>mutex_running\<close> the task that has started and is suspended at
  \<open>await readSnapshotIfExists(roomId)\<close>; the next task starts only when the promise
  of the one before it has settled. \<open>returned\<close> records what each call of
  \<open>getOrCreateRoom\<close> gave its caller, \<open>in_flight\<close> the \<open>writeFile\<close> calls that have not
  settled.
\<close>
record server =
  rooms :: "(string \<times> ref) list"
  objects :: "ref \<Rightarrow> RoomState option"
  next_ref :: ref
  disk :: "string \<Rightarrow> file_content option"
  mutex_queue :: "(caller \<times> string) list"
  mutex_running :: "(caller \<times> string) option"
  returned :: "(caller \<times> string \<times> (server_error + ref)) list"
  in_flight :: "(string \<times> snapshot) list"
  trace :: "action list"

text \<open>The module as loaded: no room, an empty storage directory, \<open>mutex\<close> resolved.\<close>
definition init_server :: server where
  "init_server =
     \<lparr> rooms = [], objects = (\<lambda>_. None), next_ref = 0, disk = (\<lambda>_. None),
       mutex_queue = [], mutex_running = None, returned = [], in_flight = [], trace = [] \<rparr>"

text \<open>\<open>readSnapshotIfExists\<close>: \<open>undefined\<close> (here \<open>Inr None\<close>) when the file does not
  exist, every other failure of the read or of \<open>JSON.parse\<close> is thrown again; what
  \<open>JSON.parse\<close> returns is returned as it is. \<open>io_ok\<close> says whether the read itself
  works.\<close>
definition readSnapshotIfExists :: "string \<Rightarrow> bool \<Rightarrow> server \<Rightarrow> server_error + json_value option" where
  "readSnapshotIfExists roomId io_ok sv =
     (if \<not> io_ok then Inl EIO
      else case disk sv (storage_path roomId) of
             None \<Rightarrow> Inr None
           | Some Garbage \<Rightarrow> Inl SyntaxError
           | Some (Json data) \<Rightarrow> Inr (Some data))"

text \<open>\<open>new TLSocketRoom({schema, initialSnapshot, ...})\<close>: an open engine on the
  snapshot, or on an empty document when there is none; the constructor throws on a
  value that is no snapshot.\<close>
definition new_TLSocketRoom :: "json_value option \<Rightarrow> server_error + TLSocketRoom" where
  "new_TLSocketRoom initialSnapshot =
     (case initialSnapshot of
        None \<Rightarrow> Inr \<lparr> closed = False, doc = [] \<rparr>
      | Some (Snapshot data) \<Rightarrow> Inr \<lparr> closed = False, doc = data \<rparr>
      | Some NoSnapshot \<Rightarrow> Inl ConstructorError)"

text \<open>\<open>saveSnapshot\<close> up to its \<open>await\<close>: the snapshot is taken and \<open>writeFile\<close> is
  called; nobody awaits the promise.\<close>
definition saveSnapshot :: "string \<Rightarrow> ref \<Rightarrow> server \<Rightarrow> server" where
  "saveSnapshot roomId r sv =
     (case objects sv r of
        None \<Rightarrow> sv
      | Some roomState \<Rightarrow>
          sv\<lparr>in_flight := in_flight sv @ [(roomId, doc (room roomState))],
             trace := trace sv @ [WriteStarted roomId (doc (room roomState))]\<rparr>)"

text \<open>The rest of \<open>saveSnapshot\<close>: the \<open>n\<close>-th pending \<open>writeFile\<close> settles. A failure is
  caught and logged.\<close>
definition writeFile_settles :: "nat \<Rightarrow> bool \<Rightarrow> server \<Rightarrow> server" where
  "writeFile_settles n ok sv =
     (if n < length (in_flight sv) then
        (let roomId = fst (in_flight sv ! n);
             snapshot = snd (in_flight sv ! n);
             sv1 = sv\<lparr>in_flight := take n (in_flight sv) @ drop (Suc n) (in_flight sv)\<rparr>
         in if ok
            then sv1\<lparr>disk := (disk sv1)(storage_path roomId \<mapsto> Json (Snapshot snapshot)),
                     trace := trace sv1 @ [WriteSucceeded roomId]\<rparr>
            else sv1\<lparr>trace := trace sv1 @ [WriteFailed roomId]\<rparr>)
      else sv)"

text \<open>\<open>room.close()\<close>.\<close>
definition close_engine :: "ref \<Rightarrow> server \<Rightarrow> server" where
  "close_engine r sv =
     (case objects sv r of
        None \<Rightarrow> sv
      | Some roomState \<Rightarrow>
          sv\<lparr>objects := (objects sv)(r \<mapsto> roomState\<lparr>room := (room roomState)\<lparr>closed := True\<rparr>\<rparr>),
             trace := trace sv @ [EngineClosed r]\<rparr>)"

text \<open>The callback \<open>onSessionRemoved(room, args)\<close> given to the engine \<open>r\<close> that was
  created for \<open>roomId\<close>.\<close>
definition onSessionRemoved :: "string \<Rightarrow> ref \<Rightarrow> session_id \<Rightarrow> nat \<Rightarrow> server \<Rightarrow> server" where
  "onSessionRemoved roomId r sessionId numSessionsRemaining sv =
     (if numSessionsRemaining = 0 then close_engine r (saveSnapshot roomId r sv) else sv)"

text \<open>The callback \<open>onDataChange()\<close>: it writes the \<open>RoomState\<close> object it was created in.\<close>
definition onDataChange :: "ref \<Rightarrow> server \<Rightarrow> server" where
  "onDataChange r sv =
     (case objects sv r of
        None \<Rightarrow> sv
      | Some roomState \<Rightarrow> sv\<lparr>objects := (objects sv)(r \<mapsto> roomState\<lparr>needsPersist := True\<rparr>)\<rparr>)"

text \<open>The check at the head of the task: \<open>rooms.has(roomId)\<close> and the room not closed.\<close>
definition room_is_open :: "string \<Rightarrow> server \<Rightarrow> bool" where
  "room_is_open roomId sv =
     (case Map_get roomId (rooms sv) of
        None \<Rightarrow> False
      | Some r \<Rightarrow> (case objects sv r of None \<Rightarrow> False | Some roomState \<Rightarrow> \<not> closed (room roomState)))"

text \<open>The \<open>RoomState\<close> object around a constructed engine, then \<open>rooms.set\<close>.\<close>
definition register_room :: "string \<Rightarrow> json_value option \<Rightarrow> TLSocketRoom \<Rightarrow> server \<Rightarrow> server" where
  "register_room roomId initialSnapshot engine sv =
     (let r = next_ref sv;
          roomState = \<lparr> room = engine, id_state = roomId, needsPersist = False \<rparr>
      in sv\<lparr>objects := (objects sv)(r \<mapsto> roomState),
            next_ref := Suc r,
            rooms := Map_set roomId r (rooms sv),
            trace := trace sv @ [Constructed r roomId initialSnapshot]\<rparr>)"

text \<open>The task after the read: the engine is constructed inside the \<open>RoomState\<close>
  literal; when the constructor throws, \<open>rooms.set\<close> is not reached.\<close>
definition create_room :: "string \<Rightarrow> json_value option \<Rightarrow> server \<Rightarrow> server_error + server" where
  "create_room roomId initialSnapshot sv =
     (case new_TLSocketRoom initialSnapshot of
        Inl e \<Rightarrow> Inl e
      | Inr engine \<Rightarrow> Inr (register_room roomId initialSnapshot engine sv))"

text \<open>\<open>getOrCreateRoom\<close> after \<open>await mutex\<close>: \<open>err\<close> is what the caller's own task
  settled with. The continuation runs before the next task of the chain starts.\<close>
definition resume :: "caller \<Rightarrow> string \<Rightarrow> server_error option \<Rightarrow> server \<Rightarrow> server" where
  "resume c roomId err sv =
     (case err of
        Some e \<Rightarrow> sv\<lparr>returned := returned sv @ [(c, roomId, Inl e)]\<rparr>
      | None \<Rightarrow>
          (case Map_get roomId (rooms sv) of
             None \<Rightarrow> sv\<lparr>returned := returned sv @ [(c, roomId, Inl TypeError)]\<rparr>
           | Some r \<Rightarrow> sv\<lparr>returned := returned sv @ [(c, roomId, Inr r)]\<rparr>))"

text \<open>The first task of the chain starts, if none is running: it returns at once when the
  room is open, else it starts the read and is suspended.\<close>
definition task_start :: "server \<Rightarrow> server" where
  "task_start sv =
     (case mutex_running sv of
        Some t \<Rightarrow> sv
      | None \<Rightarrow>
          (case mutex_queue sv of
             [] \<Rightarrow> sv
           | (c, roomId) # rest \<Rightarrow>
               if room_is_open roomId sv
               then resume c roomId None (sv\<lparr>mutex_queue := rest\<rparr>)
               else sv\<lparr>mutex_queue := rest, mutex_running := Some (c, roomId)\<rparr>))"

text \<open>The read of the running task settles: the task goes on to create the room, or it
  throws, in the read or in the constructor; \<open>.catch\<close> turns the error into the value
  the chain settles with.\<close>
definition read_settles :: "bool \<Rightarrow> server \<Rightarrow> server" where
  "read_settles io_ok sv =
     (case mutex_running sv of
        None \<Rightarrow> sv
      | Some (c, roomId) \<Rightarrow>
          (case readSnapshotIfExists roomId io_ok sv of
             Inl e \<Rightarrow> resume c roomId (Some e) (sv\<lparr>mutex_running := None\<rparr>)
           | Inr initialSnapshot \<Rightarrow>
               (case create_room roomId initialSnapshot (sv\<lparr>mutex_running := None\<rparr>) of
                  Inl e \<Rightarrow> resume c roomId (Some e) (sv\<lparr>mutex_running := None\<rparr>)
                | Inr sv1 \<Rightarrow> resume c roomId None sv1)))"

text \<open>Snapshot restoration during room creation, as a whole: the read, \<open>JSON.parse\<close>
  and the construction of the engine on what was read. It gives the error thrown, or the
  initial snapshot with the engine built on it.\<close>
definition restoration ::
  "string \<Rightarrow> bool \<Rightarrow> server \<Rightarrow> server_error + (json_value option \<times> TLSocketRoom)" where
  "restoration roomId io_ok sv =
     (case readSnapshotIfExists roomId io_ok sv of
        Inl e \<Rightarrow> Inl e
      | Inr initialSnapshot \<Rightarrow>
          (case new_TLSocketRoom initialSnapshot of
             Inl e \<Rightarrow> Inl e
           | Inr engine \<Rightarrow> Inr (initialSnapshot, engine)))"


text \<open>The first \<open>if\<close> of the \<open>setInterval\<close> callback, for the \<open>RoomState\<close> object \<open>r\<close>:
  the flag is cleared, then \<open>saveSnapshot\<close> is called and not awaited.\<close>
definition flush :: "ref \<Rightarrow> RoomState \<Rightarrow> server \<Rightarrow> server" where
  "flush r roomState sv =
     (if needsPersist roomState
      then saveSnapshot (id_state roomState) r
             (sv\<lparr>objects := (objects sv)(r \<mapsto> roomState\<lparr>needsPersist := False\<rparr>)\<rparr>)
      else sv)"

text \<open>
  The loop of the \<open>setInterval\<close> callback over \<open>rooms.values()\<close>, for the entries still
  to visit. Iteration over a \<open>Map\<close> is live: an entry deleted before it is reached is not
  visited.
\<close>
function tick_loop :: "(string \<times> ref) list \<Rightarrow> server \<Rightarrow> server" where
  "tick_loop [] sv = sv"
| "tick_loop ((k, r) # todo) sv =
     (case objects sv r of
        None \<Rightarrow> tick_loop todo sv
      | Some roomState \<Rightarrow>
          if closed (room roomState)
          then tick_loop (Map_delete (id_state roomState) todo)
                 ((flush r roomState sv)
                    \<lparr>rooms := Map_delete (id_state roomState) (rooms (flush r roomState sv))\<rparr>)
          else tick_loop todo (flush r roomState sv))"
  by pat_completeness auto
termination
  by (relation "measure (\<lambda>(todo, sv). length todo)") (auto simp: Map_delete_def less_Suc_eq_le)

definition tick :: "server \<Rightarrow> server" where
  "tick sv = tick_loop (rooms sv) sv"

text \<open>What can happen, one event at a time.\<close>
datatype event =
  Call caller string               \<comment> \<open>\<open>getOrCreateRoom(roomId)\<close> is called: its task joins the chain\<close>
| TaskStart                        \<comment> \<open>the chain moves on to its next task\<close>
| ReadDone bool                    \<comment> \<open>the read of the running task settles\<close>
| Tick                             \<comment> \<open>the interval timer fires\<close>
| DataChange ref snapshot          \<comment> \<open>engine \<open>r\<close> has a new document and calls \<open>onDataChange\<close>\<close>
| SessionRemoved ref session_id nat \<comment> \<open>engine \<open>r\<close> calls \<open>onSessionRemoved\<close>\<close>
| WriteDone nat bool               \<comment> \<open>a pending \<open>writeFile\<close> settles\<close>

fun step :: "event \<Rightarrow> server \<Rightarrow> server" where
  "step (Call c roomId) sv = sv\<lparr>mutex_queue := mutex_queue sv @ [(c, roomId)]\<rparr>"
| "step TaskStart sv = task_start sv"
| "step (ReadDone io_ok) sv = read_settles io_ok sv"
| "step Tick sv = tick sv"
| "step (DataChange r d) sv =
     (case objects sv r of
        None \<Rightarrow> sv
      | Some roomState \<Rightarrow>
          onDataChange r (sv\<lparr>objects := (objects sv)(r \<mapsto> roomState\<lparr>room := (room roomState)\<lparr>doc := d\<rparr>\<rparr>)\<rparr>))"
| "step (SessionRemoved r sessionId n) sv =
     (case objects sv r of
        None \<Rightarrow> sv
      | Some roomState \<Rightarrow> onSessionRemoved (id_state roomState) r sessionId n sv)"
| "step (WriteDone n ok) sv = writeFile_settles n ok sv"

fun run :: "event list \<Rightarrow> server \<Rightarrow> server" where
  "run [] sv = sv"
| "run (ev # evs) sv = run evs (step ev sv)"




text \<open>The snapshots for which a write of the file of \<open>roomId\<close> was started so far.\<close>
fun write_attempts_in :: "string \<Rightarrow> action list \<Rightarrow> snapshot list" where
  "write_attempts_in roomId [] = []"
| "write_attempts_in roomId (WriteStarted k s # as) =
     (if k = roomId then s # write_attempts_in roomId as else write_attempts_in roomId as)"
| "write_attempts_in roomId (a # as) = write_attempts_in roomId as"

definition write_attempts :: "string \<Rightarrow> server \<Rightarrow> snapshot list" where
  "write_attempts roomId sv = write_attempts_in roomId (trace sv)"




text \<open>
  The shape of a registry the module can reach: keys and references are not repeated,
  and each entry refers to the \<open>RoomState\<close> created under its key.
\<close>
definition entries_ok :: "(string \<times> ref) list \<Rightarrow> server \<Rightarrow> bool" where
  "entries_ok todo sv =
     (distinct (map fst todo) \<and> distinct (map snd todo) \<and>
      list_all (\<lambda>e. case objects sv (snd e) of
                      None \<Rightarrow> False
                    | Some roomState \<Rightarrow> id_state roomState = fst e) todo)"

definition registry_ok :: "server \<Rightarrow> bool" where
  "registry_ok sv = entries_ok (rooms sv) sv"

text \<open>The same, with every reference of the registry allocated.\<close>
definition reach_ok :: "server \<Rightarrow> bool" where
  "reach_ok sv = (registry_ok sv \<and> list_all (\<lambda>e. snd e < next_ref sv) (rooms sv))"


text \<open>One visit of the loop, as it is for an entry of a registry of that shape: the
  entry is flushed, and deleted when its engine is closed.\<close>
definition visited :: "string \<Rightarrow> ref \<Rightarrow> RoomState \<Rightarrow> server \<Rightarrow> server" where
  "visited k r rs sv =
     (if closed (room rs)
      then (flush r rs sv)\<lparr>rooms := Map_delete k (rooms sv)\<rparr>
      else flush r rs sv)"

subsection \<open>Example runs\<close>

text \<open>One room \<open>r\<close>, created on an empty storage directory, whose document has changed.\<close>
definition dirty_room :: server where
  "dirty_room = run [Call 1 ''r'', TaskStart, ReadDone True, DataChange 0 [''d'']] init_server"


text \<open>A storage directory in which the file of room \<open>r\<close> holds \<open>{}\<close>: JSON, but no
  snapshot.\<close>
definition no_snapshot_on_disk :: server where
  "no_snapshot_on_disk = init_server\<lparr>disk := (\<lambda>_. None)(storage_path ''r'' \<mapsto> Json NoSnapshot)\<rparr>"

text \<open>Room \<open>r\<close> is being created on that directory: the task of caller 1 waits for its
  read.\<close>
definition reading_no_snapshot :: server where
  "reading_no_snapshot = run [Call 1 ''r'', TaskStart] no_snapshot_on_disk"

text \<open>Room \<open>r\<close> is being created on an empty storage directory: the task of caller 1 has
  started and waits for its read.\<close>
definition reading_r :: server where
  "reading_r = run [Call 1 ''r'', TaskStart] init_server"



section \<open>Properties of \<open>SyncRoom\<close>\<close>

subsection \<open>Map operations\<close>

lemma Map_get_set_same: "Map_get k (Map_set k v xs) = Some v"
  by (induction xs) (auto simp: Map_get_def)

lemma Map_get_set_other: "k' \<noteq> k \<Longrightarrow> Map_get k' (Map_set k v xs) = Map_get k' xs"
  by (induction xs) (auto simp: Map_get_def)

lemma Map_set_keys_present: "Map_has k xs \<Longrightarrow> map fst (Map_set k v xs) = map fst xs"
  by (induction xs) (auto simp: Map_has_def)

lemma Map_set_keys_absent: "\<not> Map_has k xs \<Longrightarrow> map fst (Map_set k v xs) = map fst xs @ [k]"
  by (induction xs) (auto simp: Map_has_def)

lemma Map_set_distinct: "distinct (map fst xs) \<Longrightarrow> distinct (map fst (Map_set k v xs))"
  by (cases "Map_has k xs")
     (auto simp: Map_set_keys_present Map_set_keys_absent Map_has_def map_of_eq_None_iff)

lemma Map_delete_distinct: "distinct (map fst xs) \<Longrightarrow> distinct (map fst (Map_delete k xs))"
  by (simp add: Map_delete_def distinct_map_filter)

lemma Map_get_delete_same: "Map_get k (Map_delete k xs) = None"
  by (induction xs) (auto simp: Map_get_def Map_delete_def)

lemma Map_get_delete_other: "k' \<noteq> k \<Longrightarrow> Map_get k' (Map_delete k xs) = Map_get k' xs"
  by (induction xs) (auto simp: Map_get_def Map_delete_def)

subsection \<open>The broadcast loop\<close>

lemma call_hook_fields:
  "id_room (call_hook h c st) = id_room st"
  "sockets (call_hook h c st) = sockets st"
  "hooks (call_hook h c st) = hooks st"
  "presence (call_hook h c st) = presence st"
  "maps (call_hook h c st) = maps st"
  "next_addr (call_hook h c st) = next_addr st"
  "send_throws (call_hook h c st) = send_throws st"
  "outbox (call_hook h c st) = outbox st"
  "message_handlers (call_hook h c st) = message_handlers st"
  "close_handlers (call_hook h c st) = close_handlers st"
  by (simp_all add: call_hook_def split: option.splits)

text \<open>The loop writes \<open>outbox\<close> and \<open>hook_calls\<close> only.\<close>
lemma broadcast_loop_frame:
  "broadcast_loop f m xs st = (r, st') \<Longrightarrow>
     id_room st' = id_room st \<and> sockets st' = sockets st \<and> hooks st' = hooks st \<and>
     presence st' = presence st \<and> maps st' = maps st \<and> next_addr st' = next_addr st \<and>
     send_throws st' = send_throws st \<and> message_handlers st' = message_handlers st \<and>
     close_handlers st' = close_handlers st"
proof (induction xs arbitrary: st)
  case Nil
  then show ?case by simp
next
  case (Cons e xs)
  obtain s sk where e: "e = (s, sk)" by (cases e)
  show ?case
  proof (cases "s = f")
    case True
    with Cons e show ?thesis by simp
  next
    case False
    let ?st1 = "call_hook onBroadcast (BroadcastCall f s m) st"
    show ?thesis
    proof (cases "send_throws st sk")
      case True
      with Cons.prems e False have "st' = ?st1"
        by (simp add: send_def call_hook_fields)
      then show ?thesis by (simp add: call_hook_fields)
    next
      case nt: False
      let ?st2 = "?st1\<lparr>outbox := outbox ?st1 @ [(s, sk, m)]\<rparr>"
      from Cons.prems e False nt have "broadcast_loop f m xs ?st2 = (r, st')"
        by (simp add: send_def call_hook_fields)
      from Cons.IH[OF this] show ?thesis by (simp add: call_hook_fields)
    qed
  qed
qed

text \<open>The loop sends to the destinations in order, up to the first socket that throws.\<close>
lemma broadcast_loop_outbox:
  "broadcast_loop f m xs st = (r, st') \<Longrightarrow>
     outbox st' = outbox st @
       map (\<lambda>e. (fst e, snd e, m))
         (takeWhile (\<lambda>e. \<not> send_throws st (snd e)) (destinations f xs))"
proof (induction xs arbitrary: st)
  case Nil
  then show ?case by (simp add: destinations_def)
next
  case (Cons e xs)
  obtain s sk where e: "e = (s, sk)" by (cases e)
  show ?case
  proof (cases "s = f")
    case True
    with Cons e show ?thesis by (simp add: destinations_def)
  next
    case False
    let ?st1 = "call_hook onBroadcast (BroadcastCall f s m) st"
    show ?thesis
    proof (cases "send_throws st sk")
      case True
      with Cons.prems e False have "st' = ?st1"
        by (simp add: send_def call_hook_fields)
      with True e False show ?thesis by (simp add: call_hook_fields destinations_def)
    next
      case nt: False
      let ?st2 = "?st1\<lparr>outbox := outbox ?st1 @ [(s, sk, m)]\<rparr>"
      from Cons.prems e False nt have "broadcast_loop f m xs ?st2 = (r, st')"
        by (simp add: send_def call_hook_fields)
      from Cons.IH[OF this] e False nt show ?thesis
        by (simp add: call_hook_fields destinations_def)
    qed
  qed
qed

text \<open>The loop ends with the exception of the first socket that throws, if there is one.\<close>
lemma broadcast_loop_result:
  "broadcast_loop f m xs st = (r, st') \<Longrightarrow>
     r = (case dropWhile (\<lambda>e. \<not> send_throws st (snd e)) (destinations f xs) of
            [] \<Rightarrow> None
          | e # _ \<Rightarrow> Some (TransportError (snd e)))"
proof (induction xs arbitrary: st)
  case Nil
  then show ?case by (simp add: destinations_def)
next
  case (Cons e xs)
  obtain s sk where e: "e = (s, sk)" by (cases e)
  show ?case
  proof (cases "s = f")
    case True
    with Cons e show ?thesis by (simp add: destinations_def)
  next
    case False
    let ?st1 = "call_hook onBroadcast (BroadcastCall f s m) st"
    show ?thesis
    proof (cases "send_throws st sk")
      case True
      with Cons.prems e False show ?thesis
        by (simp add: send_def call_hook_fields destinations_def)
    next
      case nt: False
      let ?st2 = "?st1\<lparr>outbox := outbox ?st1 @ [(s, sk, m)]\<rparr>"
      from Cons.prems e False nt have "broadcast_loop f m xs ?st2 = (r, st')"
        by (simp add: send_def call_hook_fields)
      from Cons.IH[OF this] e False nt show ?thesis
        by (simp add: call_hook_fields destinations_def)
    qed
  qed
qed

lemma broadcast_fields:
  "maps (snd (broadcast f m st)) = maps st"
  "presence (snd (broadcast f m st)) = presence st"
  "sockets (snd (broadcast f m st)) = sockets st"
  "next_addr (snd (broadcast f m st)) = next_addr st"
  using broadcast_loop_frame[of f m "sockets st" st "fst (broadcast f m st)" "snd (broadcast f m st)"]
  by (simp_all add: broadcast_def)

lemma example_room_fields:
  "sockets alice_bob_carol = [(''A'', 1), (''B'', 2), (''C'', 3)]"
  "outbox alice_bob_carol = []"
  "send_throws alice_bob_carol = (\<lambda>k. k = 2)"
  "sockets alice_bob_carol_ok = [(''A'', 1), (''B'', 2), (''C'', 3)]"
  "outbox alice_bob_carol_ok = []"
  "send_throws alice_bob_carol_ok = (\<lambda>_. False)"
  by (simp_all add: alice_bob_carol_ok_def alice_bob_carol_def new_SyncRoom_def)

subsection \<open>Connecting\<close>

lemma connect_result: "fst (connect sessionId socket st) = None"
  by (simp add: connect_def Let_def)

lemma connect_fields:
  "sockets (snd (connect sessionId socket st)) = Map_set sessionId socket (sockets st)"
  "maps (snd (connect sessionId socket st)) = maps st"
  "presence (snd (connect sessionId socket st)) = presence st"
  "next_addr (snd (connect sessionId socket st)) = next_addr st"
  "message_handlers (snd (connect sessionId socket st)) = message_handlers st @ [(socket, sessionId)]"
  "close_handlers (snd (connect sessionId socket st)) = close_handlers st @ [(socket, sessionId)]"
  by (simp_all add: connect_def Let_def call_hook_fields)

lemma x_connected_fields:
  "sockets x_connected = [(''x'', 1)]"
  "message_handlers x_connected = [(1, ''x'')]"
  "close_handlers x_connected = [(1, ''x'')]"
  by (simp_all add: x_connected_def connect_fields new_SyncRoom_def)

subsection \<open>Presence\<close>

lemma updatePresence_fields:
  "maps (snd (updatePresence js s p st)) =
     (maps st)(presence st := Map_set s p (maps st (presence st)))"
  "presence (snd (updatePresence js s p st)) = presence st"
  "sockets (snd (updatePresence js s p st)) = sockets st"
  "next_addr (snd (updatePresence js s p st)) = next_addr st"
  by (simp_all add: updatePresence_def Let_def call_hook_fields broadcast_fields
        split: option.splits)

lemma apply_map_ops_other: "b \<noteq> a \<Longrightarrow> maps (apply_map_ops a ops st) b = maps st b"
proof (induction ops arbitrary: st)
  case Nil
  then show ?case by simp
next
  case (Cons op ops)
  have "maps (apply_map_op a op st) b = maps st b"
    using Cons.prems by (cases op) simp_all
  with Cons show ?case by simp
qed

lemma apply_map_ops_fields:
  "sockets (apply_map_ops a ops st) = sockets st \<and>
   presence (apply_map_ops a ops st) = presence st \<and>
   next_addr (apply_map_ops a ops st) = next_addr st"
proof (induction ops arbitrary: st)
  case Nil
  then show ?case by simp
next
  case (Cons op ops)
  have "sockets (apply_map_op a op st) = sockets st \<and>
        presence (apply_map_op a op st) = presence st \<and>
        next_addr (apply_map_op a op st) = next_addr st"
    by (cases op) simp_all
  with Cons show ?case by simp
qed

lemma s1_present_fields:
  "presence s1_present = 0"
  "next_addr s1_present = 1"
  "sockets s1_present = []"
  "maps s1_present 0 = [(''s1'', 12)]"
  by (simp_all add: s1_present_def updatePresence_fields new_SyncRoom_def)

subsection \<open>The invariant of a room\<close>

lemma room_ok_new: "room_ok (new_SyncRoom rid hs throws)"
  by (simp add: room_ok_def new_SyncRoom_def)

lemma room_ok_connect: "room_ok st \<Longrightarrow> room_ok (snd (connect sessionId socket st))"
  by (simp add: room_ok_def connect_fields Map_set_distinct)

lemma room_ok_broadcast: "room_ok st \<Longrightarrow> room_ok (snd (broadcast f m st))"
  by (simp add: room_ok_def broadcast_fields)

lemma room_ok_updatePresence: "room_ok st \<Longrightarrow> room_ok (snd (updatePresence js s p st))"
  by (simp add: room_ok_def updatePresence_fields)

lemma room_ok_getAllPresence: "room_ok st \<Longrightarrow> room_ok (snd (getAllPresence st))"
  by (simp add: room_ok_def getAllPresence_def)

lemma room_ok_close_handler: "room_ok st \<Longrightarrow> room_ok (close_handler s st)"
  by (simp add: room_ok_def close_handler_def Let_def call_hook_fields Map_delete_distinct)

lemma room_ok_message_handler: "room_ok st \<Longrightarrow> room_ok (snd (message_handler s m st))"
  by (simp add: room_ok_def message_handler_def Let_def broadcast_fields split: option.splits)

lemma room_ok_apply_map_ops: "room_ok st \<Longrightarrow> room_ok (apply_map_ops a ops st)"
  by (simp add: room_ok_def apply_map_ops_fields)

subsection \<open>Claims about \<open>SyncRoom\<close>\<close>

text \<open>
  C3, as the code has it. \<open>connect\<close> never fails. For a \<open>sessionId\<close> that is already
  attached, a second \<open>connect(sessionId, socket)\<close> ends normally and puts the new socket
  in the place of the first one in the registry; the order of the registry, the entries
  of the other sessions and the presence map stay as they were; the handlers registered
  on the first socket stay registered and the same two handlers are registered on the
  new socket as well.
\<close>
theorem second_connect_replaces_socket:
  assumes "Map_has sessionId (sockets st)"
  shows "fst (connect sessionId socket st) = None \<and>
         Map_get sessionId (sockets (snd (connect sessionId socket st))) = Some socket \<and>
         map fst (sockets (snd (connect sessionId socket st))) = map fst (sockets st) \<and>
         (\<forall>s. s \<noteq> sessionId \<longrightarrow>
            Map_get s (sockets (snd (connect sessionId socket st))) = Map_get s (sockets st)) \<and>
         maps (snd (connect sessionId socket st)) = maps st \<and>
         presence (snd (connect sessionId socket st)) = presence st \<and>
         message_handlers (snd (connect sessionId socket st)) =
           message_handlers st @ [(socket, sessionId)] \<and>
         close_handlers (snd (connect sessionId socket st)) =
           close_handlers st @ [(socket, sessionId)]"
  using assms
  by (simp add: connect_result connect_fields Map_get_set_same Map_get_set_other
        Map_set_keys_present)

text \<open>Witness for C3: session \<open>x\<close>, attached with socket 1, connects again with socket 2.\<close>
theorem second_connect_replaces_socket_witness:
  "Map_has ''x'' (sockets x_connected) \<and>
   fst (connect ''x'' 2 x_connected) = None \<and>
   Map_get ''x'' (sockets (snd (connect ''x'' 2 x_connected))) = Some 2 \<and>
   close_handlers (snd (connect ''x'' 2 x_connected)) = [(1, ''x''), (2, ''x'')]"
proof -
  have h: "Map_has ''x'' (sockets x_connected)"
    by (simp add: x_connected_fields Map_has_def)
  from second_connect_replaces_socket[OF h, of 2] h show ?thesis
    by (simp add: x_connected_fields)
qed

text \<open>
  C3 as stated fails: in a new room, \<open>connect("x", socket 1)\<close> followed by
  \<open>connect("x", socket 2)\<close> raises no error, and the registry entry of \<open>x\<close>, which was
  socket 1, is socket 2 afterwards.
\<close>
theorem second_connect_counterexample:
  "Map_get ''x'' (sockets x_connected) = Some 1 \<and>
   fst (connect ''x'' 2 x_connected) = None \<and>
   Map_get ''x'' (sockets (snd (connect ''x'' 2 x_connected))) = Some 2"
  by (simp add: connect_result connect_fields x_connected_fields Map_get_def)

text \<open>
  C4, as the code has it. \<open>broadcast\<close> has no handler around \<open>socket.send\<close>: the loop
  stops at the first destination (in registry order) whose \<open>send\<close> throws, and the
  exception reaches the caller. The destinations before that one have been sent the
  message, that one and the ones after it have not. No session is detached: registry and
  presence map are what they were.
\<close>
theorem broadcast_stops_at_first_failing_send:
  "fst (broadcast f m st) =
     (case dropWhile (\<lambda>e. \<not> send_throws st (snd e)) (destinations f (sockets st)) of
        [] \<Rightarrow> None
      | e # _ \<Rightarrow> Some (TransportError (snd e))) \<and>
   delivered st (snd (broadcast f m st)) =
     map (\<lambda>e. (fst e, snd e, m))
       (takeWhile (\<lambda>e. \<not> send_throws st (snd e)) (destinations f (sockets st))) \<and>
   sockets (snd (broadcast f m st)) = sockets st \<and>
   maps (snd (broadcast f m st)) = maps st \<and>
   presence (snd (broadcast f m st)) = presence st"
proof -
  obtain r st' where b: "broadcast_loop f m (sockets st) st = (r, st')"
    by (cases "broadcast_loop f m (sockets st) st")
  from broadcast_loop_result[OF b] broadcast_loop_outbox[OF b] broadcast_loop_frame[OF b] b
  show ?thesis by (simp add: broadcast_def delivered_def)
qed

text \<open>Witness for C4: A broadcasts in the room where the socket of C (not of B) throws:
  B is sent the message, then the exception of C's socket ends the call.\<close>
theorem broadcast_stops_at_first_failing_send_witness:
  "fst (broadcast ''A'' ''M'' (alice_bob_carol\<lparr>send_throws := (\<lambda>k. k = 3)\<rparr>)) =
     Some (TransportError 3) \<and>
   delivered (alice_bob_carol\<lparr>send_throws := (\<lambda>k. k = 3)\<rparr>)
     (snd (broadcast ''A'' ''M'' (alice_bob_carol\<lparr>send_throws := (\<lambda>k. k = 3)\<rparr>))) =
     [(''B'', 2, ''M'')]"
  using broadcast_stops_at_first_failing_send
          [of "''A''" "''M''" "alice_bob_carol\<lparr>send_throws := (\<lambda>k. k = 3)\<rparr>"]
  by (simp add: example_room_fields destinations_def)

text \<open>
  C4 as stated fails: sessions A, B, C attached in this order, the socket of B throws on
  \<open>send\<close>. A broadcast from A ends with the exception of B's socket; C has been sent
  nothing, and B is still in the registry.
\<close>
theorem broadcast_send_failure_counterexample:
  "fst (broadcast ''A'' ''M'' alice_bob_carol) = Some (TransportError 2) \<and>
   (''C'', 3, ''M'') \<notin> set (outbox (snd (broadcast ''A'' ''M'' alice_bob_carol))) \<and>
   Map_has ''B'' (sockets (snd (broadcast ''A'' ''M'' alice_bob_carol)))"
  by (simp add: broadcast_def example_room_fields send_def call_hook_def
        alice_bob_carol_def new_SyncRoom_def Map_has_def)

text \<open>
  C7. In every room, when the sockets of the sessions other than the originator A accept
  the message, \<open>broadcast(A, M)\<close> ends normally and makes exactly one \<open>send(M)\<close> for every
  attached session other than A, in registry order, and none for A. With sessions
  \<open>{A, B, C}\<close> attached: M goes to B and to C, not to A.
\<close>
theorem broadcast_fans_out_to_all_but_originator:
  assumes "\<forall>e \<in> set (sockets st). fst e \<noteq> A \<longrightarrow> \<not> send_throws st (snd e)"
  shows "fst (broadcast A M st) = None \<and>
         delivered st (snd (broadcast A M st)) =
           map (\<lambda>e. (fst e, snd e, M)) (filter (\<lambda>e. fst e \<noteq> A) (sockets st)) \<and>
         (\<forall>s sk m. (s, sk, m) \<in> set (delivered st (snd (broadcast A M st))) \<longleftrightarrow>
            (s, sk) \<in> set (sockets st) \<and> s \<noteq> A \<and> m = M)"
proof -
  obtain r st' where b: "broadcast_loop A M (sockets st) st = (r, st')"
    by (cases "broadcast_loop A M (sockets st) st")
  have all: "\<forall>e \<in> set (destinations A (sockets st)). \<not> send_throws st (snd e)"
    using assms by (simp add: destinations_def)
  then have tw: "takeWhile (\<lambda>e. \<not> send_throws st (snd e)) (destinations A (sockets st))
                   = destinations A (sockets st)"
    by (simp add: takeWhile_eq_all_conv)
  from all have dw: "dropWhile (\<lambda>e. \<not> send_throws st (snd e)) (destinations A (sockets st)) = []"
    by (simp add: dropWhile_eq_Nil_conv)
  have r: "r = None"
    using broadcast_loop_result[OF b] unfolding dw by simp
  have d: "delivered st st' = map (\<lambda>e. (fst e, snd e, M)) (filter (\<lambda>e. fst e \<noteq> A) (sockets st))"
    using broadcast_loop_outbox[OF b] unfolding tw by (simp add: delivered_def destinations_def)
  have m: "\<forall>s sk m. (s, sk, m) \<in> set (delivered st st') \<longleftrightarrow>
             (s, sk) \<in> set (sockets st) \<and> s \<noteq> A \<and> m = M"
    unfolding d by force
  from r d m b show ?thesis by (simp add: broadcast_def)
qed

text \<open>Witness for C7: sessions A, B, C on working sockets 1, 2, 3; A broadcasts M.\<close>
theorem broadcast_fans_out_witness:
  "sockets alice_bob_carol_ok = [(''A'', 1), (''B'', 2), (''C'', 3)] \<and>
   \<not> send_throws alice_bob_carol_ok 2 \<and> \<not> send_throws alice_bob_carol_ok 3 \<and>
   fst (broadcast ''A'' ''M'' alice_bob_carol_ok) = None \<and>
   delivered alice_bob_carol_ok (snd (broadcast ''A'' ''M'' alice_bob_carol_ok))
     = [(''B'', 2, ''M''), (''C'', 3, ''M'')]"
proof -
  have h: "\<forall>e \<in> set (sockets alice_bob_carol_ok).
             fst e \<noteq> ''A'' \<longrightarrow> \<not> send_throws alice_bob_carol_ok (snd e)"
    by (simp add: example_room_fields)
  from broadcast_fans_out_to_all_but_originator[OF h, of "''M''"] h show ?thesis
    by (simp add: example_room_fields)
qed

text \<open>
  C8. \<open>updatePresence(s, p)\<close> followed by \<open>getPresence(s)\<close> returns \<open>p\<close>, in every room
  state: whether or not \<open>s\<close> has a socket in the registry, and also when the broadcast
  of the presence message ends by an exception. In a room whose presence map is empty,
  after \<open>updatePresence(s1, p1)\<close> and \<open>updatePresence(s2, p2)\<close> with \<open>s1 \<noteq> s2\<close>, the map
  returned by \<open>getAllPresence()\<close> has exactly the entries \<open>(s1, p1)\<close> and \<open>(s2, p2)\<close>.
\<close>
theorem presence_update_then_read:
  "getPresence s (snd (updatePresence js s p st)) = Some p \<and>
   (maps st (presence st) = [] \<and> s1 \<noteq> s2 \<longrightarrow>
      maps (snd (getAllPresence (snd (updatePresence js s2 p2 (snd (updatePresence js s1 p1 st))))))
           (fst (getAllPresence (snd (updatePresence js s2 p2 (snd (updatePresence js s1 p1 st))))))
        = [(s1, p1), (s2, p2)])"
  by (simp add: getPresence_def getAllPresence_def updatePresence_fields Map_get_set_same)

text \<open>Witness for C8: a new room with no socket attached; \<open>s1\<close> sets 12, then \<open>s2\<close> sets 34.\<close>
theorem presence_update_then_read_witness:
  "sockets (new_SyncRoom ''r'' None (\<lambda>_. False) :: nat SyncRoom) = [] \<and>
   maps (new_SyncRoom ''r'' None (\<lambda>_. False) :: nat SyncRoom)
     (presence (new_SyncRoom ''r'' None (\<lambda>_. False) :: nat SyncRoom)) = [] \<and>
   ''s1'' \<noteq> ''s2'' \<and>
   getPresence ''s1'' (snd (updatePresence (\<lambda>_ _. Some ''m'') ''s1'' (12::nat)
      (new_SyncRoom ''r'' None (\<lambda>_. False)))) = Some 12 \<and>
   maps (snd (getAllPresence (snd (updatePresence (\<lambda>_ _. Some ''m'') ''s2'' 34
           (snd (updatePresence (\<lambda>_ _. Some ''m'') ''s1'' (12::nat)
              (new_SyncRoom ''r'' None (\<lambda>_. False))))))))
        (fst (getAllPresence (snd (updatePresence (\<lambda>_ _. Some ''m'') ''s2'' 34
           (snd (updatePresence (\<lambda>_ _. Some ''m'') ''s1'' (12::nat)
              (new_SyncRoom ''r'' None (\<lambda>_. False))))))))
     = [(''s1'', 12), (''s2'', 34)]"
  using presence_update_then_read
          [of "''s1''" "\<lambda>_ _. Some ''m''" "12::nat" "new_SyncRoom ''r'' None (\<lambda>_. False)"
              "''s1''" "''s2''" 34 12]
  by (simp add: new_SyncRoom_def)

text \<open>
  C9. \<open>getPresence\<close> returns a value and writes nothing. \<open>getAllPresence\<close> allocates one
  new map object and changes nothing else: registry, presence reference and every map
  that existed before are unchanged, so every \<open>getPresence\<close> answers as before. The new
  map holds the entries of the presence map and is a different object: whatever sequence
  of \<open>set\<close>, \<open>delete\<close> and \<open>clear\<close> the caller applies to it, the room's presence map and
  every \<open>getPresence\<close> stay as they were. (The copy is of the map: the payloads are the
  values \<open>'p\<close> held in both maps.)
\<close>
theorem getAllPresence_returns_defensive_copy:
  assumes "presence st < next_addr st"
  shows "fst (getAllPresence st) \<noteq> presence st \<and>
         maps (snd (getAllPresence st)) (fst (getAllPresence st)) = maps st (presence st) \<and>
         sockets (snd (getAllPresence st)) = sockets st \<and>
         presence (snd (getAllPresence st)) = presence st \<and>
         (\<forall>b. b < next_addr st \<longrightarrow> maps (snd (getAllPresence st)) b = maps st b) \<and>
         (\<forall>s. getPresence s (snd (getAllPresence st)) = getPresence s st) \<and>
         (\<forall>ops s. getPresence s (apply_map_ops (fst (getAllPresence st)) ops (snd (getAllPresence st)))
                   = getPresence s st) \<and>
         (\<forall>ops. maps (apply_map_ops (fst (getAllPresence st)) ops (snd (getAllPresence st)))
                   (presence st) = maps st (presence st))"
  using assms
  by (simp add: getAllPresence_def getPresence_def apply_map_ops_other apply_map_ops_fields)

text \<open>Witness for C9: the presence of \<open>s1\<close> is 12; the caller clears the returned map and
  stores 99 for \<open>s1\<close> in it; the room still answers 12.\<close>
theorem getAllPresence_returns_defensive_copy_witness:
  "presence s1_present < next_addr s1_present \<and>
   fst (getAllPresence s1_present) \<noteq> presence s1_present \<and>
   maps (snd (getAllPresence s1_present)) (fst (getAllPresence s1_present)) = [(''s1'', 12)] \<and>
   getPresence ''s1'' (apply_map_ops (fst (getAllPresence s1_present)) [ClearOp, SetOp ''s1'' 99]
      (snd (getAllPresence s1_present))) = Some 12"
proof -
  have h: "presence s1_present < next_addr s1_present"
    by (simp add: s1_present_fields)
  from getAllPresence_returns_defensive_copy[OF h] h show ?thesis
    by (simp add: s1_present_fields getPresence_def Map_get_def)
qed

text \<open>
  C10. \<open>broadcast(fromSessionId, message)\<close> leaves the room as it was, for every state
  and every \<open>fromSessionId\<close>, attached or not, and whether the call ends normally or by
  the exception of a socket: the socket registry, the presence map (the reference and
  every map object), the hooks, the id and the registered handlers are the same before
  and after. What the call adds to is outside the room: the sends and the hook calls.
\<close>
theorem broadcast_leaves_room_unchanged:
  "sockets (snd (broadcast fromSessionId message st)) = sockets st \<and>
   presence (snd (broadcast fromSessionId message st)) = presence st \<and>
   maps (snd (broadcast fromSessionId message st)) = maps st \<and>
   next_addr (snd (broadcast fromSessionId message st)) = next_addr st \<and>
   hooks (snd (broadcast fromSessionId message st)) = hooks st \<and>
   id_room (snd (broadcast fromSessionId message st)) = id_room st \<and>
   message_handlers (snd (broadcast fromSessionId message st)) = message_handlers st \<and>
   close_handlers (snd (broadcast fromSessionId message st)) = close_handlers st"
  using broadcast_loop_frame[of fromSessionId message "sockets st" st
          "fst (broadcast fromSessionId message st)" "snd (broadcast fromSessionId message st)"]
  by (simp add: broadcast_def)

text \<open>Witness for C10: the broadcast that ends by the exception of B's socket leaves
  the three registry entries in place.\<close>
theorem broadcast_leaves_room_unchanged_witness:
  "fst (broadcast ''A'' ''M'' alice_bob_carol) = Some (TransportError 2) \<and>
   sockets (snd (broadcast ''A'' ''M'' alice_bob_carol)) = [(''A'', 1), (''B'', 2), (''C'', 3)] \<and>
   presence (snd (broadcast ''A'' ''M'' alice_bob_carol)) = presence alice_bob_carol \<and>
   maps (snd (broadcast ''A'' ''M'' alice_bob_carol)) = maps alice_bob_carol"
proof -
  have "fst (broadcast ''A'' ''M'' alice_bob_carol) = Some (TransportError 2)"
    by (simp add: broadcast_def example_room_fields send_def call_hook_fields)
  with broadcast_leaves_room_unchanged[of "''A''" "''M''" alice_bob_carol] show ?thesis
    by (simp add: example_room_fields)
qed

section \<open>Properties of the room registry\<close>

subsection \<open>The path of a room's file\<close>

text \<open>The file of room \<open>r\<close>; and two room ids that name one file.\<close>
lemma storage_path_examples:
  "storage_path ''r'' = ''room-data/r.json''"
  "storage_path ''./a'' = storage_path ''a''"
  "storage_path ''../x'' = ''x.json''"
  by (simp_all add: storage_path_def join_def STORAGE_DIR_def)

subsection \<open>The steps of \<open>getOrCreateRoom\<close>\<close>
lemma dirty_room_fields:
  "rooms dirty_room = [(''r'', 0)]"
  "objects dirty_room 0 =
     Some \<lparr>room = \<lparr>closed = False, doc = [''d'']\<rparr>, id_state = ''r'', needsPersist = True\<rparr>"
  "trace dirty_room = [Constructed 0 ''r'' None]"
  "in_flight dirty_room = []"
  "next_ref dirty_room = 1"
  "disk dirty_room = (\<lambda>_. None)"
  by (simp_all add: dirty_room_def init_server_def task_start_def room_is_open_def Map_get_def
        read_settles_def readSnapshotIfExists_def create_room_def new_TLSocketRoom_def
        register_room_def resume_def onDataChange_def)


lemma resume_fields:
  "rooms (resume c k err sv) = rooms sv"
  "objects (resume c k err sv) = objects sv"
  "next_ref (resume c k err sv) = next_ref sv"
  "disk (resume c k err sv) = disk sv"
  "mutex_queue (resume c k err sv) = mutex_queue sv"
  "mutex_running (resume c k err sv) = mutex_running sv"
  "in_flight (resume c k err sv) = in_flight sv"
  "trace (resume c k err sv) = trace sv"
  by (simp_all add: resume_def split: option.splits)

lemma room_is_open_same:
  "rooms sv' = rooms sv \<Longrightarrow> objects sv' = objects sv \<Longrightarrow> room_is_open k sv' = room_is_open k sv"
  by (simp add: room_is_open_def split: option.splits)

lemma readSnapshotIfExists_same:
  "disk sv' = disk sv \<Longrightarrow> readSnapshotIfExists k b sv' = readSnapshotIfExists k b sv"
  by (simp add: readSnapshotIfExists_def)

lemma restoration_same:
  "disk sv' = disk sv \<Longrightarrow> restoration k b sv' = restoration k b sv"
  by (simp add: restoration_def readSnapshotIfExists_def)




text \<open>Restoration fails in the read or in the constructor, and in no other way.\<close>
lemma restoration_Inl:
  "restoration k b sv = Inl e \<longleftrightarrow>
     readSnapshotIfExists k b sv = Inl e \<or>
     (\<exists>s. readSnapshotIfExists k b sv = Inr s \<and> new_TLSocketRoom s = Inl e)"
  by (auto simp: restoration_def split: sum.splits)

lemma restoration_Inr:
  "restoration k b sv = Inr (s, eng) \<longleftrightarrow>
     readSnapshotIfExists k b sv = Inr s \<and> new_TLSocketRoom s = Inr eng"
  by (auto simp: restoration_def split: sum.splits)




lemma task_start_read:
  "mutex_running sv = None \<Longrightarrow> mutex_queue sv = (c, k) # rest \<Longrightarrow> \<not> room_is_open k sv \<Longrightarrow>
     task_start sv = sv\<lparr>mutex_queue := rest, mutex_running := Some (c, k)\<rparr>"
  by (simp add: task_start_def)

lemma read_settles_idle: "mutex_running sv = None \<Longrightarrow> read_settles b sv = sv"
  by (simp add: read_settles_def)

lemma read_settles_fail:
  "mutex_running sv = Some (c, k) \<Longrightarrow> restoration k b sv = Inl e \<Longrightarrow>
     read_settles b sv = resume c k (Some e) (sv\<lparr>mutex_running := None\<rparr>)"
  by (auto simp: read_settles_def restoration_def create_room_def split: sum.splits)

lemma read_settles_ok:
  "mutex_running sv = Some (c, k) \<Longrightarrow> restoration k b sv = Inr (s, eng) \<Longrightarrow>
     read_settles b sv = resume c k None (register_room k s eng (sv\<lparr>mutex_running := None\<rparr>))"
  by (auto simp: read_settles_def restoration_def create_room_def split: sum.splits)

lemma register_room_fields:
  "rooms (register_room k s eng sv) = Map_set k (next_ref sv) (rooms sv)"
  "objects (register_room k s eng sv) =
     (objects sv)(next_ref sv \<mapsto> \<lparr>room = eng, id_state = k, needsPersist = False\<rparr>)"
  "next_ref (register_room k s eng sv) = Suc (next_ref sv)"
  "disk (register_room k s eng sv) = disk sv"
  "mutex_queue (register_room k s eng sv) = mutex_queue sv"
  "mutex_running (register_room k s eng sv) = mutex_running sv"
  "returned (register_room k s eng sv) = returned sv"
  "in_flight (register_room k s eng sv) = in_flight sv"
  "trace (register_room k s eng sv) = trace sv @ [Constructed (next_ref sv) k s]"
  by (simp_all add: register_room_def Let_def)

lemma resume_returned:
  "returned (resume c k (Some e) sv) = returned sv @ [(c, k, Inl e)]"
  "Map_get k (rooms sv) = Some r \<Longrightarrow> returned (resume c k None sv) = returned sv @ [(c, k, Inr r)]"
  "Map_get k (rooms sv) = None \<Longrightarrow> returned (resume c k None sv) = returned sv @ [(c, k, Inl TypeError)]"
  by (simp_all add: resume_def)






























lemma init_server_fields:
  "rooms init_server = []" "trace init_server = []" "returned init_server = []"
  "disk init_server = (\<lambda>_. None)" "mutex_running init_server = None" "mutex_queue init_server = []"
  "next_ref init_server = 0" "in_flight init_server = []" "objects init_server = (\<lambda>_. None)"
  by (simp_all add: init_server_def)

subsection \<open>The persistence loop\<close>


lemma write_attempts_in_append:
  "write_attempts_in k (as @ bs) = write_attempts_in k as @ write_attempts_in k bs"
  by (induction k as rule: write_attempts_in.induct) simp_all

lemma flush_fields:
  "rooms (flush r rs sv) = rooms sv"
  "next_ref (flush r rs sv) = next_ref sv"
  "disk (flush r rs sv) = disk sv"
  "mutex_queue (flush r rs sv) = mutex_queue sv"
  "mutex_running (flush r rs sv) = mutex_running sv"
  "returned (flush r rs sv) = returned sv"
  "trace (flush r rs sv) =
     trace sv @ (if needsPersist rs then [WriteStarted (id_state rs) (doc (room rs))] else [])"
  "in_flight (flush r rs sv) =
     in_flight sv @ (if needsPersist rs then [(id_state rs, doc (room rs))] else [])"
  by (simp_all add: flush_def saveSnapshot_def)

lemma flush_objects:
  "objects sv r = Some rs \<Longrightarrow> objects (flush r rs sv) = (objects sv)(r \<mapsto> rs\<lparr>needsPersist := False\<rparr>)"
  by (auto simp: flush_def saveSnapshot_def fun_eq_iff)

lemma entries_ok_Cons:
  "entries_ok ((k, r) # todo) sv \<longleftrightarrow>
     k \<notin> fst ` set todo \<and> r \<notin> snd ` set todo \<and>
     (\<exists>rs. objects sv r = Some rs \<and> id_state rs = k) \<and> entries_ok todo sv"
  by (auto simp: entries_ok_def split: option.splits)

lemma entries_ok_same_objects:
  "entries_ok todo sv \<Longrightarrow> \<forall>r \<in> snd ` set todo. objects sv' r = objects sv r \<Longrightarrow> entries_ok todo sv'"
  by (auto simp: entries_ok_def list_all_iff)

lemma Map_delete_absent: "k \<notin> fst ` set xs \<Longrightarrow> Map_delete k xs = xs"
  by (induction xs) (auto simp: Map_delete_def)



lemma entries_ok_ConsD:
  assumes "entries_ok ((k, r) # todo) sv" "objects sv r = Some rs"
  shows "k \<notin> fst ` set todo" "r \<notin> snd ` set todo" "id_state rs = k" "entries_ok todo sv"
  using assms unfolding entries_ok_Cons by auto

lemma entries_ok_ConsE:
  assumes "entries_ok ((k, r) # todo) sv"
  obtains rs where "objects sv r = Some rs"
  using assms unfolding entries_ok_Cons by auto

lemma visited_objects:
  assumes "objects sv r = Some rs"
  shows "objects (visited k r rs sv) = (objects sv)(r \<mapsto> rs\<lparr>needsPersist := False\<rparr>)"
  using flush_objects[OF assms] by (simp add: visited_def)

lemma entries_ok_upd:
  assumes "entries_ok todo sv" "r \<notin> snd ` set todo" "objects sv' = (objects sv)(r \<mapsto> x)"
  shows "entries_ok todo sv'"
  using assms(1) by (rule entries_ok_same_objects) (use assms in auto)

lemma tick_loop_visit:
  assumes "objects sv r = Some rs" "id_state rs = k" "Map_delete k todo = todo"
  shows "tick_loop ((k, r) # todo) sv = tick_loop todo (visited k r rs sv)"
  using assms by (simp add: visited_def flush_fields)

lemma tick_loop_Cons:
  assumes "entries_ok ((k, r) # todo) sv" "objects sv r = Some rs"
  shows "tick_loop ((k, r) # todo) sv = tick_loop todo (visited k r rs sv)"
    and "entries_ok todo (visited k r rs sv)"
    and "\<forall>r'. r' \<noteq> r \<longrightarrow> objects (visited k r rs sv) r' = objects sv r'"
    and "objects (visited k r rs sv) r = Some (rs\<lparr>needsPersist := False\<rparr>)"
    and "trace (visited k r rs sv) =
           trace sv @ (if needsPersist rs then [WriteStarted k (doc (room rs))] else [])"
    and "rooms (visited k r rs sv) = (if closed (room rs) then Map_delete k (rooms sv) else rooms sv)"
proof -
  note d = entries_ok_ConsD[OF assms]
  note o = visited_objects[OF assms(2), of k]
  show "tick_loop ((k, r) # todo) sv = tick_loop todo (visited k r rs sv)"
    by (rule tick_loop_visit[OF assms(2) d(3) Map_delete_absent[OF d(1)]])
  show "\<forall>r'. r' \<noteq> r \<longrightarrow> objects (visited k r rs sv) r' = objects sv r'"
    by (simp add: o)
  show "objects (visited k r rs sv) r = Some (rs\<lparr>needsPersist := False\<rparr>)"
    by (simp add: o)
  show "entries_ok todo (visited k r rs sv)"
    by (rule entries_ok_upd[OF d(4) d(2) o])
  show "trace (visited k r rs sv) =
           trace sv @ (if needsPersist rs then [WriteStarted k (doc (room rs))] else [])"
    using d(3) by (simp add: visited_def flush_fields)
  show "rooms (visited k r rs sv) = (if closed (room rs) then Map_delete k (rooms sv) else rooms sv)"
    by (simp add: visited_def flush_fields)
qed



text \<open>The loop clears the flag of every object it visits and writes no other object.\<close>
lemma tick_loop_objects:
  "entries_ok todo sv \<Longrightarrow>
     objects (tick_loop todo sv) r =
       (if r \<in> snd ` set todo
        then map_option (\<lambda>rs. rs\<lparr>needsPersist := False\<rparr>) (objects sv r)
        else objects sv r)"
proof (induction todo arbitrary: sv)
  case Nil
  then show ?case by simp
next
  case (Cons e todo)
  obtain k r0 where e: "e = (k, r0)" by (cases e)
  have ok: "entries_ok ((k, r0) # todo) sv" using Cons.prems e by simp
  from ok obtain rs where rs: "objects sv r0 = Some rs" by (rule entries_ok_ConsE)
  note r0 = entries_ok_ConsD(2)[OF ok rs]
  note v = tick_loop_Cons[OF ok rs]
  let ?sv' = "visited k r0 rs sv"
  note ih = Cons.IH[OF v(2)]
  show ?case
  proof (cases "r = r0")
    case True
    then show ?thesis
      unfolding e v(1) ih using r0 v(4) rs by simp
  next
    case False
    with v(3) have "objects ?sv' r = objects sv r" by simp
    then show ?thesis
      unfolding e v(1) ih using False by simp
  qed
qed

text \<open>The loop deletes the entries whose engine is closed, and only those.\<close>
lemma tick_loop_rooms:
  "entries_ok todo sv \<Longrightarrow>
     rooms (tick_loop todo sv) =
       filter (\<lambda>e. \<not> (\<exists>r rs. (fst e, r) \<in> set todo \<and> objects sv r = Some rs \<and> closed (room rs)))
         (rooms sv)"
proof (induction todo arbitrary: sv)
  case Nil
  then show ?case by simp
next
  case (Cons e0 todo)
  obtain k r0 where e: "e0 = (k, r0)" by (cases e0)
  have ok: "entries_ok ((k, r0) # todo) sv" using Cons.prems e by simp
  from ok obtain rs where rs: "objects sv r0 = Some rs" by (rule entries_ok_ConsE)
  note k = entries_ok_ConsD(1)[OF ok rs] and r0 = entries_ok_ConsD(2)[OF ok rs]
  note v = tick_loop_Cons[OF ok rs]
  let ?sv' = "visited k r0 rs sv"
  note ih = Cons.IH[OF v(2)]
  have same: "(\<exists>r rs'. (a, r) \<in> set todo \<and> objects ?sv' r = Some rs' \<and> closed (room rs')) \<longleftrightarrow>
              (\<exists>r rs'. (a, r) \<in> set todo \<and> objects sv r = Some rs' \<and> closed (room rs'))" for a
  proof -
    have "objects ?sv' r = objects sv r" if "(a, r) \<in> set todo" for r
    proof -
      from that have "r \<in> snd ` set todo" by force
      with r0 have "r \<noteq> r0" by auto
      with v(3) show ?thesis by simp
    qed
    then show ?thesis by metis
  qed
  have head: "(\<exists>r rs'. (a, r) \<in> set ((k, r0) # todo) \<and> objects sv r = Some rs' \<and> closed (room rs')) \<longleftrightarrow>
              (a = k \<and> closed (room rs)) \<or>
              (\<exists>r rs'. (a, r) \<in> set todo \<and> objects sv r = Some rs' \<and> closed (room rs'))" for a
    using rs by auto
  show ?case
    unfolding e v(1) ih v(6) same head
    by (auto simp: Map_delete_def intro: filter_cong)
qed


lemma tick_objects:
  "registry_ok sv \<Longrightarrow>
     objects (tick sv) r =
       (if r \<in> snd ` set (rooms sv)
        then map_option (\<lambda>rs. rs\<lparr>needsPersist := False\<rparr>) (objects sv r)
        else objects sv r)"
  unfolding registry_ok_def tick_def by (rule tick_loop_objects)

lemma tick_rooms:
  "registry_ok sv \<Longrightarrow>
     rooms (tick sv) =
       filter (\<lambda>e. \<not> (\<exists>r rs. (fst e, r) \<in> set (rooms sv) \<and> objects sv r = Some rs \<and> closed (room rs)))
         (rooms sv)"
  unfolding registry_ok_def tick_def by (rule tick_loop_rooms)

lemma registry_ok_tick:
  assumes "registry_ok sv"
  shows "registry_ok (tick sv)"
proof -
  let ?P = "\<lambda>e. \<not> (\<exists>r rs. (fst e, r) \<in> set (rooms sv) \<and> objects sv r = Some rs \<and> closed (room rs))"
  have rm: "rooms (tick sv) = filter ?P (rooms sv)"
    by (rule tick_rooms[OF assms])
  from assms have d: "distinct (map fst (rooms sv))" "distinct (map snd (rooms sv))"
    and l: "\<forall>e \<in> set (rooms sv). \<exists>rs. objects sv (snd e) = Some rs \<and> id_state rs = fst e"
    by (auto simp: registry_ok_def entries_ok_def list_all_iff split: option.splits)
  have "\<forall>e \<in> set (filter ?P (rooms sv)).
          (case objects (tick sv) (snd e) of None \<Rightarrow> False
           | Some roomState \<Rightarrow> id_state roomState = fst e)"
  proof
    fix e
    assume "e \<in> set (filter ?P (rooms sv))"
    then have m: "e \<in> set (rooms sv)" by simp
    with l obtain rs where rs: "objects sv (snd e) = Some rs" "id_state rs = fst e" by blast
    from m have "snd e \<in> snd ` set (rooms sv)" by simp
    then have "objects (tick sv) (snd e) = Some (rs\<lparr>needsPersist := False\<rparr>)"
      using rs(1) by (simp add: tick_objects[OF assms])
    then show "case objects (tick sv) (snd e) of None \<Rightarrow> False
               | Some roomState \<Rightarrow> id_state roomState = fst e"
      using rs(2) by simp
  qed
  then have "list_all (\<lambda>e. case objects (tick sv) (snd e) of None \<Rightarrow> False
                            | Some roomState \<Rightarrow> id_state roomState = fst e) (filter ?P (rooms sv))"
    unfolding list_all_iff .
  with d show ?thesis
    unfolding registry_ok_def entries_ok_def rm by (simp add: distinct_map_filter)
qed

lemma writeFile_settles_fields:
  "rooms (writeFile_settles n ok sv) = rooms sv"
  "objects (writeFile_settles n ok sv) = objects sv"
  "write_attempts k (writeFile_settles n ok sv) = write_attempts k sv"
  by (simp_all add: writeFile_settles_def Let_def write_attempts_def write_attempts_in_append)




subsection \<open>Reachable registries\<close>

lemma set_Map_set: "set (Map_set k v xs) \<subseteq> insert (k, v) (set xs)"
  by (induction xs) (auto split: if_splits)

lemma Map_set_distinct_values:
  "distinct (map snd xs) \<Longrightarrow> v \<notin> snd ` set xs \<Longrightarrow> distinct (map snd (Map_set k v xs))"
proof (induction xs)
  case Nil
  then show ?case by simp
next
  case (Cons e xs)
  have "snd ` set (Map_set k v xs) \<subseteq> insert v (snd ` set xs)"
    using set_Map_set[of k v xs] by force
  with Cons show ?case by (cases e) auto
qed

lemma reach_okI:
  assumes "distinct (map fst (rooms sv))" "distinct (map snd (rooms sv))"
    and "\<And>k r. (k, r) \<in> set (rooms sv) \<Longrightarrow> r < next_ref sv \<and> (\<exists>rs. objects sv r = Some rs \<and> id_state rs = k)"
  shows "reach_ok sv"
  using assms unfolding reach_ok_def registry_ok_def entries_ok_def list_all_iff
  by (fastforce split: option.splits)

lemma reach_okD:
  assumes "reach_ok sv"
  shows "distinct (map fst (rooms sv))" "distinct (map snd (rooms sv))"
    and "(k, r) \<in> set (rooms sv) \<Longrightarrow> r < next_ref sv"
    and "(k, r) \<in> set (rooms sv) \<Longrightarrow> \<exists>rs. objects sv r = Some rs \<and> id_state rs = k"
  using assms unfolding reach_ok_def registry_ok_def entries_ok_def list_all_iff
  by (auto split: option.splits)

lemma reach_ok_same:
  "reach_ok sv \<Longrightarrow> rooms sv' = rooms sv \<Longrightarrow> objects sv' = objects sv \<Longrightarrow>
     next_ref sv' = next_ref sv \<Longrightarrow> reach_ok sv'"
  by (simp add: reach_ok_def registry_ok_def entries_ok_def)

lemma reach_ok_init: "reach_ok init_server"
  by (simp add: reach_ok_def registry_ok_def entries_ok_def init_server_fields)

lemma reach_ok_register_room:
  assumes "reach_ok sv"
  shows "reach_ok (register_room k s eng sv)"
proof (rule reach_okI)
  note d = reach_okD[OF assms]
  show "distinct (map fst (rooms (register_room k s eng sv)))"
    using d(1) by (simp add: register_room_fields Map_set_distinct)
  have fresh: "next_ref sv \<notin> snd ` set (rooms sv)"
    using d(3) by force
  show "distinct (map snd (rooms (register_room k s eng sv)))"
    using d(2) fresh by (simp add: register_room_fields Map_set_distinct_values)
  fix k' r
  assume "(k', r) \<in> set (rooms (register_room k s eng sv))"
  then have "(k', r) = (k, next_ref sv) \<or> (k', r) \<in> set (rooms sv)"
    using set_Map_set[of k "next_ref sv" "rooms sv"] by (auto simp: register_room_fields)
  then show "r < next_ref (register_room k s eng sv) \<and>
             (\<exists>rs. objects (register_room k s eng sv) r = Some rs \<and> id_state rs = k')"
  proof
    assume "(k', r) = (k, next_ref sv)"
    then show ?thesis by (simp add: register_room_fields)
  next
    assume m: "(k', r) \<in> set (rooms sv)"
    from d(3)[OF m] d(4)[OF m] show ?thesis by (auto simp: register_room_fields)
  qed
qed

lemma reach_ok_objects_upd:
  assumes "reach_ok sv" "objects sv r = Some rs" "id_state rs' = id_state rs"
  shows "reach_ok (sv\<lparr>objects := (objects sv)(r \<mapsto> rs')\<rparr>)"
proof (rule reach_okI)
  note d = reach_okD[OF assms(1)]
  show "distinct (map fst (rooms (sv\<lparr>objects := (objects sv)(r \<mapsto> rs')\<rparr>)))"
    using d(1) by simp
  show "distinct (map snd (rooms (sv\<lparr>objects := (objects sv)(r \<mapsto> rs')\<rparr>)))"
    using d(2) by simp
  fix k r'
  assume "(k, r') \<in> set (rooms (sv\<lparr>objects := (objects sv)(r \<mapsto> rs')\<rparr>))"
  then have m: "(k, r') \<in> set (rooms sv)" by simp
  from d(3)[OF m] d(4)[OF m] assms(2,3)
  show "r' < next_ref (sv\<lparr>objects := (objects sv)(r \<mapsto> rs')\<rparr>) \<and>
        (\<exists>rs. objects (sv\<lparr>objects := (objects sv)(r \<mapsto> rs')\<rparr>) r' = Some rs \<and> id_state rs = k)"
    by auto
qed

lemma next_ref_tick_loop: "next_ref (tick_loop todo sv) = next_ref sv"
  by (induction todo sv rule: tick_loop.induct) (simp_all add: flush_fields split: option.splits)

lemma reach_ok_tick:
  assumes "reach_ok sv"
  shows "reach_ok (tick sv)"
proof -
  from assms have r: "registry_ok sv" by (simp add: reach_ok_def)
  have "list_all (\<lambda>e. snd e < next_ref (tick sv)) (rooms (tick sv))"
    using assms unfolding tick_rooms[OF r] reach_ok_def list_all_iff
    by (simp add: tick_def next_ref_tick_loop)
  with registry_ok_tick[OF r] show ?thesis by (simp add: reach_ok_def)
qed

lemma reach_ok_step:
  assumes "reach_ok sv"
  shows "reach_ok (step ev sv)"
proof (cases ev)
  case (Call c k)
  have "reach_ok (sv\<lparr>mutex_queue := mutex_queue sv @ [(c, k)]\<rparr>)"
    using assms by (rule reach_ok_same) simp_all
  with Call show ?thesis by simp
next
  case TaskStart
  have "rooms (task_start sv) = rooms sv \<and> objects (task_start sv) = objects sv \<and>
        next_ref (task_start sv) = next_ref sv"
    by (simp add: task_start_def resume_fields split: option.splits list.splits prod.splits)
  with assms have "reach_ok (task_start sv)"
    by (elim reach_ok_same) simp_all
  with TaskStart show ?thesis by simp
next
  case (ReadDone b)
  show ?thesis
  proof (cases "mutex_running sv")
    case None
    with ReadDone assms show ?thesis by (simp add: read_settles_idle)
  next
    case (Some t)
    obtain c k where t: "t = (c, k)" by (cases t)
    have run: "mutex_running sv = Some (c, k)" using Some t by simp
    have ok0: "reach_ok (sv\<lparr>mutex_running := None\<rparr>)"
      using assms by (rule reach_ok_same) simp_all
    show ?thesis
    proof (cases "restoration k b sv")
      case (Inl e)
      have "reach_ok (resume c k (Some e) (sv\<lparr>mutex_running := None\<rparr>))"
        using ok0 by (rule reach_ok_same) (simp_all add: resume_fields)
      with ReadDone read_settles_fail[OF run Inl] show ?thesis by simp
    next
      case (Inr p)
      obtain s eng where "p = (s, eng)" by (cases p)
      with Inr have rs: "restoration k b sv = Inr (s, eng)" by simp
      have "reach_ok (resume c k None (register_room k s eng (sv\<lparr>mutex_running := None\<rparr>)))"
        using reach_ok_register_room[OF ok0] by (rule reach_ok_same) (simp_all add: resume_fields)
      with ReadDone read_settles_ok[OF run rs] show ?thesis by simp
    qed
  qed
next
  case Tick
  then show ?thesis using assms by (simp add: reach_ok_tick)
next
  case (DataChange r d)
  show ?thesis
  proof (cases "objects sv r")
    case None
    with DataChange assms show ?thesis by simp
  next
    case (Some rs)
    have "step ev sv =
          sv\<lparr>objects := (objects sv)(r \<mapsto> rs\<lparr>room := (room rs)\<lparr>doc := d\<rparr>, needsPersist := True\<rparr>)\<rparr>"
      using DataChange Some by (simp add: onDataChange_def)
    moreover have "reach_ok (sv\<lparr>objects := (objects sv)(r \<mapsto> rs\<lparr>room := (room rs)\<lparr>doc := d\<rparr>, needsPersist := True\<rparr>)\<rparr>)"
      using assms Some by (rule reach_ok_objects_upd) simp
    ultimately show ?thesis by simp
  qed
next
  case (SessionRemoved r s n)
  show ?thesis
  proof (cases "objects sv r")
    case None
    with SessionRemoved assms show ?thesis by simp
  next
    case (Some rs)
    show ?thesis
    proof (cases "n = 0")
      case False
      with SessionRemoved Some assms show ?thesis by (simp add: onSessionRemoved_def)
    next
      case True
      let ?sv1 = "sv\<lparr>objects := (objects sv)(r \<mapsto> rs\<lparr>room := (room rs)\<lparr>closed := True\<rparr>\<rparr>)\<rparr>"
      have ok1: "reach_ok ?sv1"
        using assms Some by (rule reach_ok_objects_upd) simp
      have "reach_ok (step ev sv)"
        using ok1
        by (rule reach_ok_same)
           (simp_all add: SessionRemoved Some True onSessionRemoved_def saveSnapshot_def close_engine_def)
      then show ?thesis .
    qed
  qed
next
  case (WriteDone n ok)
  have "next_ref (writeFile_settles n ok sv) = next_ref sv"
    by (simp add: writeFile_settles_def Let_def)
  with assms have "reach_ok (writeFile_settles n ok sv)"
    by (elim reach_ok_same) (simp_all add: writeFile_settles_fields)
  with WriteDone show ?thesis by simp
qed

lemma reach_ok_run: "reach_ok sv \<Longrightarrow> reach_ok (run evs sv)"
  by (induction evs arbitrary: sv) (simp_all add: reach_ok_step)

text \<open>Every state the module reaches from its initial state has a registry of that shape.\<close>
lemma registry_ok_reachable: "registry_ok (run evs init_server)"
  using reach_ok_run[OF reach_ok_init, of evs] by (simp add: reach_ok_def)

subsection \<open>Progress of the chain\<close>











subsection \<open>Claims about the registry\<close>







text \<open>
  C5, as the code has it. When the engine \<open>r\<close> reports a removed session with zero
  sessions remaining, the callback takes the snapshot of \<open>r\<close>, starts exactly one write
  of it to the file of the room and then closes the engine, without awaiting the write:
  the trace gains the write and, after it, the close. At that moment the engine is
  closed, the write is pending and the storage is what it was. The snapshot reaches the
  file only when the write settles with success, after the room is Closed; when the
  write fails, the failure is logged and the storage stays as it was. With sessions
  remaining the callback changes nothing.
\<close>
theorem last_session_removed_starts_write_then_closes:
  assumes "objects sv r = Some roomState"
  shows "trace (step (SessionRemoved r sessionId 0) sv) =
           trace sv @ [WriteStarted (id_state roomState) (doc (room roomState)), EngineClosed r] \<and>
         in_flight (step (SessionRemoved r sessionId 0) sv) =
           in_flight sv @ [(id_state roomState, doc (room roomState))] \<and>
         objects (step (SessionRemoved r sessionId 0) sv) r =
           Some (roomState\<lparr>room := (room roomState)\<lparr>closed := True\<rparr>\<rparr>) \<and>
         disk (step (SessionRemoved r sessionId 0) sv) = disk sv \<and>
         (0 < n \<longrightarrow> step (SessionRemoved r sessionId n) sv = sv) \<and>
         disk (step (WriteDone (length (in_flight sv)) True) (step (SessionRemoved r sessionId 0) sv)) =
           (disk sv)(storage_path (id_state roomState) \<mapsto> Json (Snapshot (doc (room roomState)))) \<and>
         disk (step (WriteDone (length (in_flight sv)) False) (step (SessionRemoved r sessionId 0) sv)) =
           disk sv \<and>
         trace (step (WriteDone (length (in_flight sv)) False) (step (SessionRemoved r sessionId 0) sv)) =
           trace sv @ [WriteStarted (id_state roomState) (doc (room roomState)), EngineClosed r,
                       WriteFailed (id_state roomState)]"
proof -
  define sv1 where "sv1 = step (SessionRemoved r sessionId 0) sv"
  have f: "trace sv1 =
           trace sv @ [WriteStarted (id_state roomState) (doc (room roomState)), EngineClosed r]"
    "in_flight sv1 = in_flight sv @ [(id_state roomState, doc (room roomState))]"
    "objects sv1 r = Some (roomState\<lparr>room := (room roomState)\<lparr>closed := True\<rparr>\<rparr>)"
    "disk sv1 = disk sv"
    using assms by (simp_all add: sv1_def onSessionRemoved_def saveSnapshot_def close_engine_def)
  have n: "0 < n \<longrightarrow> step (SessionRemoved r sessionId n) sv = sv"
    using assms by (simp add: onSessionRemoved_def)
  have w: "disk (step (WriteDone (length (in_flight sv)) True) sv1) =
             (disk sv)(storage_path (id_state roomState) \<mapsto> Json (Snapshot (doc (room roomState))))"
    "disk (step (WriteDone (length (in_flight sv)) False) sv1) = disk sv"
    "trace (step (WriteDone (length (in_flight sv)) False) sv1) =
       trace sv @ [WriteStarted (id_state roomState) (doc (room roomState)), EngineClosed r,
                   WriteFailed (id_state roomState)]"
    by (simp_all add: writeFile_settles_def f Let_def)
  show ?thesis
    unfolding sv1_def[symmetric] using f n w by blast
qed

text \<open>Witness for C5: the last session leaves room \<open>r\<close>, whose document is \<open>[d]\<close>; the
  write succeeds after the engine has been closed.\<close>
theorem last_session_removed_witness:
  "objects dirty_room 0 =
     Some \<lparr>room = \<lparr>closed = False, doc = [''d'']\<rparr>, id_state = ''r'', needsPersist = True\<rparr> \<and>
   trace (step (SessionRemoved 0 ''s'' 0) dirty_room) =
     [Constructed 0 ''r'' None, WriteStarted ''r'' [''d''], EngineClosed 0] \<and>
   step (SessionRemoved 0 ''s'' 1) dirty_room = dirty_room \<and>
   disk (step (WriteDone 0 True) (step (SessionRemoved 0 ''s'' 0) dirty_room)) (storage_path ''r'') =
     Some (Json (Snapshot [''d'']))"
proof -
  have h: "objects dirty_room 0 =
     Some \<lparr>room = \<lparr>closed = False, doc = [''d'']\<rparr>, id_state = ''r'', needsPersist = True\<rparr>"
    by (simp add: dirty_room_fields)
  note T = last_session_removed_starts_write_then_closes[OF h, of "''s''" 1]
  from T have a: "trace (step (SessionRemoved 0 ''s'' 0) dirty_room) =
      trace dirty_room @ [WriteStarted ''r'' [''d''], EngineClosed 0]"
    by simp
  from T have b: "step (SessionRemoved 0 ''s'' 1) dirty_room = dirty_room"
    by simp
  from T have c: "disk (step (WriteDone (length (in_flight dirty_room)) True)
                     (step (SessionRemoved 0 ''s'' 0) dirty_room)) =
                  (disk dirty_room)(storage_path ''r'' \<mapsto> Json (Snapshot [''d'']))"
    by simp
  from a b c h show ?thesis
    by (simp add: dirty_room_fields del: step.simps)
qed

text \<open>
  C5 as stated fails: the last session leaves room \<open>r\<close>. When the callback returns the
  engine is closed, the write is still pending and the file of the room does not exist:
  the snapshot has not been persisted before the room became Closed. When the write
  then fails, the failure is logged and the snapshot is never persisted.
\<close>
theorem last_session_removed_counterexample:
  "objects (step (SessionRemoved 0 ''s'' 0) dirty_room) 0 =
     Some \<lparr>room = \<lparr>closed = True, doc = [''d'']\<rparr>, id_state = ''r'', needsPersist = True\<rparr> \<and>
   in_flight (step (SessionRemoved 0 ''s'' 0) dirty_room) = [(''r'', [''d''])] \<and>
   disk (step (SessionRemoved 0 ''s'' 0) dirty_room) (storage_path ''r'') = None \<and>
   disk (run [SessionRemoved 0 ''s'' 0, WriteDone 0 False] dirty_room) (storage_path ''r'') = None \<and>
   trace (run [SessionRemoved 0 ''s'' 0, WriteDone 0 False] dirty_room) =
     [Constructed 0 ''r'' None, WriteStarted ''r'' [''d''], EngineClosed 0, WriteFailed ''r'']"
  by (simp add: dirty_room_fields onSessionRemoved_def saveSnapshot_def close_engine_def
        writeFile_settles_def)

text \<open>
  C6. Snapshot restoration is the read of the file, \<open>JSON.parse\<close> and the construction
  of the engine on what was read. When it fails for the running task for \<open>roomId\<close>
  other than by a missing file (it throws \<open>e\<close>: the read failed, the file is not JSON,
  or the constructor rejected the data), the caller gets \<open>e\<close>; the registry, the
  objects and the trace are unchanged, so no room is registered by the call and the
  room is no more open than it was; the chain is free again. A later request for the same \<open>roomId\<close> (here on an empty queue, the room not
  being open) starts a restoration of its own, and when that one succeeds the engine it
  built is registered and the caller gets the new room.
\<close>
theorem restoration_failure_registers_no_room:
  assumes "mutex_running sv = Some (c, roomId)"
      and "restoration roomId io_ok sv = Inl e"
  shows "returned (step (ReadDone io_ok) sv) = returned sv @ [(c, roomId, Inl e)] \<and>
         rooms (step (ReadDone io_ok) sv) = rooms sv \<and>
         objects (step (ReadDone io_ok) sv) = objects sv \<and>
         next_ref (step (ReadDone io_ok) sv) = next_ref sv \<and>
         trace (step (ReadDone io_ok) sv) = trace sv \<and>
         mutex_running (step (ReadDone io_ok) sv) = None \<and>
         mutex_queue (step (ReadDone io_ok) sv) = mutex_queue sv \<and>
         room_is_open roomId (step (ReadDone io_ok) sv) = room_is_open roomId sv \<and>
         (mutex_queue sv = [] \<and> \<not> room_is_open roomId sv \<longrightarrow>
            mutex_running (run [Call c' roomId, TaskStart] (step (ReadDone io_ok) sv))
              = Some (c', roomId) \<and>
            (\<forall>io_ok' s eng. restoration roomId io_ok' sv = Inr (s, eng) \<longrightarrow>
               returned (run [Call c' roomId, TaskStart, ReadDone io_ok'] (step (ReadDone io_ok) sv))
                 = returned sv @ [(c, roomId, Inl e), (c', roomId, Inr (next_ref sv))] \<and>
               rooms (run [Call c' roomId, TaskStart, ReadDone io_ok'] (step (ReadDone io_ok) sv))
                 = Map_set roomId (next_ref sv) (rooms sv) \<and>
               trace (run [Call c' roomId, TaskStart, ReadDone io_ok'] (step (ReadDone io_ok) sv))
                 = trace sv @ [Constructed (next_ref sv) roomId s]))"
proof -
  define sv1 where "sv1 = step (ReadDone io_ok) sv"
  have sv1: "sv1 = resume c roomId (Some e) (sv\<lparr>mutex_running := None\<rparr>)"
    using assms by (simp add: sv1_def read_settles_fail)
  have f1: "returned sv1 = returned sv @ [(c, roomId, Inl e)]" "rooms sv1 = rooms sv"
    "objects sv1 = objects sv" "next_ref sv1 = next_ref sv" "trace sv1 = trace sv"
    "mutex_running sv1 = None" "mutex_queue sv1 = mutex_queue sv" "disk sv1 = disk sv"
    by (simp_all add: sv1 resume_fields resume_returned)
  have f1o: "room_is_open roomId sv1 = room_is_open roomId sv"
    using room_is_open_same[of sv1 sv roomId] f1 by simp
  have later: "mutex_running (run [Call c' roomId, TaskStart] sv1) = Some (c', roomId) \<and>
            (\<forall>io_ok' s eng. restoration roomId io_ok' sv = Inr (s, eng) \<longrightarrow>
               returned (run [Call c' roomId, TaskStart, ReadDone io_ok'] sv1)
                 = returned sv @ [(c, roomId, Inl e), (c', roomId, Inr (next_ref sv))] \<and>
               rooms (run [Call c' roomId, TaskStart, ReadDone io_ok'] sv1)
                 = Map_set roomId (next_ref sv) (rooms sv) \<and>
               trace (run [Call c' roomId, TaskStart, ReadDone io_ok'] sv1)
                 = trace sv @ [Constructed (next_ref sv) roomId s])"
    if q: "mutex_queue sv = []" and o: "\<not> room_is_open roomId sv"
  proof -
    define sv2 where "sv2 = step (Call c' roomId) sv1"
    define sv3 where "sv3 = step TaskStart sv2"
    have f2: "mutex_queue sv2 = [(c', roomId)]" "mutex_running sv2 = None"
      "rooms sv2 = rooms sv" "objects sv2 = objects sv"
      by (simp_all add: sv2_def f1 q)
    have o2: "\<not> room_is_open roomId sv2"
      using o room_is_open_same[of sv2 sv roomId] f2 by simp
    have sv3: "sv3 = sv2\<lparr>mutex_queue := [], mutex_running := Some (c', roomId)\<rparr>"
      using task_start_read[OF f2(2) f2(1) o2] by (simp add: sv3_def)
    have f3: "mutex_running sv3 = Some (c', roomId)" "disk sv3 = disk sv"
      "returned sv3 = returned sv @ [(c, roomId, Inl e)]" "trace sv3 = trace sv"
      "next_ref sv3 = next_ref sv" "rooms sv3 = rooms sv"
      by (simp_all add: sv3 sv2_def f1)
    have ok: "returned (step (ReadDone io_ok') sv3)
                 = returned sv @ [(c, roomId, Inl e), (c', roomId, Inr (next_ref sv))] \<and>
              rooms (step (ReadDone io_ok') sv3) = Map_set roomId (next_ref sv) (rooms sv) \<and>
              trace (step (ReadDone io_ok') sv3) = trace sv @ [Constructed (next_ref sv) roomId s]"
      if rd: "restoration roomId io_ok' sv = Inr (s, eng)" for io_ok' s eng
    proof -
      have "restoration roomId io_ok' sv3 = Inr (s, eng)"
        using rd restoration_same[of sv3 sv roomId io_ok'] f3 by simp
      from read_settles_ok[OF f3(1) this] show ?thesis
        by (simp add: resume_fields resume_returned register_room_fields Map_get_set_same f3)
    qed
    have r2: "run [Call c' roomId, TaskStart] sv1 = sv3"
      by (simp add: sv3_def sv2_def)
    have r3: "run [Call c' roomId, TaskStart, ReadDone b] sv1 = step (ReadDone b) sv3" for b
      by (simp add: sv3_def sv2_def)
    show ?thesis
      unfolding r2 r3 using f3(1) ok by blast
  qed
  show ?thesis
    unfolding sv1_def[symmetric] using f1 f1o later by blast
qed

text \<open>Witness for C6. The read for room \<open>r\<close> fails with an I/O error; caller 2 asks
  again, its read finds no file, and it gets the room constructed for it. And with a
  file that holds \<open>{}\<close> the read works, the constructor throws, the caller gets that
  error and no room is registered.\<close>
theorem restoration_failure_witness:
  "mutex_running reading_r = Some (1, ''r'') \<and>
   restoration ''r'' False reading_r = Inl EIO \<and>
   mutex_queue reading_r = [] \<and> \<not> room_is_open ''r'' reading_r \<and>
   restoration ''r'' True reading_r = Inr (None, \<lparr>closed = False, doc = []\<rparr>) \<and>
   returned (step (ReadDone False) reading_r) = [(1, ''r'', Inl EIO)] \<and>
   rooms (step (ReadDone False) reading_r) = [] \<and>
   returned (run [Call 2 ''r'', TaskStart, ReadDone True] (step (ReadDone False) reading_r))
     = [(1, ''r'', Inl EIO), (2, ''r'', Inr 0)] \<and>
   trace (run [Call 2 ''r'', TaskStart, ReadDone True] (step (ReadDone False) reading_r))
     = [Constructed 0 ''r'' None] \<and>
   mutex_running reading_no_snapshot = Some (1, ''r'') \<and>
   readSnapshotIfExists ''r'' True reading_no_snapshot = Inr (Some NoSnapshot) \<and>
   restoration ''r'' True reading_no_snapshot = Inl ConstructorError \<and>
   returned (step (ReadDone True) reading_no_snapshot) = [(1, ''r'', Inl ConstructorError)] \<and>
   rooms (step (ReadDone True) reading_no_snapshot) = []"
proof -
  have f: "mutex_running reading_r = Some (1, ''r'')" "mutex_queue reading_r = []"
    "rooms reading_r = []" "returned reading_r = []" "trace reading_r = []"
    "next_ref reading_r = 0" "disk reading_r = (\<lambda>_. None)"
    by (simp_all add: reading_r_def init_server_def task_start_def room_is_open_def Map_get_def)
  have h: "restoration ''r'' False reading_r = Inl EIO"
    "restoration ''r'' True reading_r = Inr (None, \<lparr>closed = False, doc = []\<rparr>)"
    by (simp_all add: restoration_def readSnapshotIfExists_def new_TLSocketRoom_def f)
  have o: "\<not> room_is_open ''r'' reading_r"
    by (simp add: room_is_open_def f Map_get_def)
  note T = restoration_failure_registers_no_room[OF f(1) h(1), of 2]
  from T have a: "returned (step (ReadDone False) reading_r) = returned reading_r @ [(1, ''r'', Inl EIO)]"
    and b: "rooms (step (ReadDone False) reading_r) = rooms reading_r"
    by blast+
  from T f(2) o h(2)
  have c: "returned (run [Call 2 ''r'', TaskStart, ReadDone True] (step (ReadDone False) reading_r))
             = returned reading_r @ [(1, ''r'', Inl EIO), (2, ''r'', Inr (next_ref reading_r))] \<and>
           trace (run [Call 2 ''r'', TaskStart, ReadDone True] (step (ReadDone False) reading_r))
             = trace reading_r @ [Constructed (next_ref reading_r) ''r'' None]"
    by blast
  have g: "mutex_running reading_no_snapshot = Some (1, ''r'')"
    "rooms reading_no_snapshot = []" "returned reading_no_snapshot = []"
    "disk reading_no_snapshot = (\<lambda>_. None)(storage_path ''r'' \<mapsto> Json NoSnapshot)"
    by (simp_all add: reading_no_snapshot_def no_snapshot_on_disk_def init_server_def
          task_start_def room_is_open_def Map_get_def)
  have k: "readSnapshotIfExists ''r'' True reading_no_snapshot = Inr (Some NoSnapshot)"
    "restoration ''r'' True reading_no_snapshot = Inl ConstructorError"
    by (simp_all add: restoration_def readSnapshotIfExists_def new_TLSocketRoom_def g)
  note U = restoration_failure_registers_no_room[OF g(1) k(2), of 2]
  from U have d: "returned (step (ReadDone True) reading_no_snapshot) =
                    returned reading_no_snapshot @ [(1, ''r'', Inl ConstructorError)]"
    and e: "rooms (step (ReadDone True) reading_no_snapshot) = rooms reading_no_snapshot"
    by blast+
  from a b c d e f g h k o show ?thesis
    by (simp del: step.simps run.simps)
qed

end
